theory Spec2Isabelle
  imports Complex_Main "HOL-Library.Multiset"
begin

section \<open>Common types\<close>

text \<open>
  Python exceptions that the modelled functions can raise.  A function that can
  raise returns \<open>py_error + 'a\<close>, with \<open>Inl\<close> for the exception.
\<close>

datatype py_error = IndexError | KeyError | ValueError | AssertionError | ZeroDivisionError

text \<open>
  A site is a pair of grid coordinates, a gate a pair of qubit indices, a motion
  the 4-tuple that \<open>route_qubit_mis\<close> builds for a candidate move.
\<close>

type_synonym site = "int \<times> int"
type_synonym gate = "nat \<times> nat"
type_synonym motion = "int \<times> int \<times> int \<times> int"

section \<open>Router: compatibility of simultaneous motions (router\_mis.py)\<close>

text \<open>
  \<open>compatible_2D(a, b)\<close>: the eight early returns of the source, in order.
\<close>

fun compatible_2D :: "motion \<Rightarrow> motion \<Rightarrow> bool" where
  "compatible_2D (a0, a1, a2, a3) (b0, b1, b2, b3) =
     (if a0 = b0 \<and> a1 \<noteq> b1 then False
      else if a1 = b1 \<and> a0 \<noteq> b0 then False
      else if a0 < b0 \<and> a1 \<ge> b1 then False
      else if a0 > b0 \<and> a1 \<le> b1 then False
      else if a2 = b2 \<and> a3 \<noteq> b3 then False
      else if a3 = b3 \<and> a2 \<noteq> b2 then False
      else if a2 < b2 \<and> a3 \<ge> b3 then False
      else if a2 > b2 \<and> a3 \<le> b3 then False
      else True)"

text \<open>
  The conflict edges of \<open>route_qubit_mis\<close>:
  \<^verbatim>\<open>for i in range(len(vectors)):
    for j in range(i+1, len(vectors)):
        if not compatible_2D(vectors[i], vectors[j]):
            violations.append((i, j))\<close>
\<close>

definition build_violations :: "motion list \<Rightarrow> (nat \<times> nat) list" where
  "build_violations vectors =
     concat (map (\<lambda>i. map (\<lambda>j. (i, j))
                         (filter (\<lambda>j. \<not> compatible_2D (vectors ! i) (vectors ! j))
                                 [i + 1 ..< length vectors]))
                 [0 ..< length vectors])"

text \<open>
  \<open>maximalis_solve_sort(n, edges)\<close>.  \<open>node_neighbors\<close> is a dictionary with the
  keys \<open>0 .. n-1\<close>, so an edge with an endpoint outside that range raises KeyError
  while the neighbour lists are filled.  The neighbour list of \<open>i\<close> collects, edge
  by edge, \<open>edge[1]\<close> when \<open>edge[0] = i\<close> and then \<open>edge[0]\<close> when \<open>edge[1] = i\<close>.
\<close>

definition node_neighbors :: "(nat \<times> nat) list \<Rightarrow> nat \<Rightarrow> nat list" where
  "node_neighbors edges i =
     concat (map (\<lambda>edge. (if fst edge = i then [snd edge] else []) @
                         (if snd edge = i then [fst edge] else [])) edges)"

text \<open>The inner loop \<^verbatim>\<open>for j in node_neighbors[i]: is_node_conflict[j] = True\<close>.\<close>

definition mark_conflicts :: "nat list \<Rightarrow> bool list \<Rightarrow> bool list" where
  "mark_conflicts js is_node_conflict = fold (\<lambda>j c. c[j := True]) js is_node_conflict"

text \<open>One pass of the outer loop over \<open>i\<close>; the state is \<open>(is_node_conflict, result)\<close>.\<close>

definition mis_sort_step ::
  "(nat \<times> nat) list \<Rightarrow> nat \<Rightarrow> bool list \<times> nat list \<Rightarrow> bool list \<times> nat list" where
  "mis_sort_step edges i st =
     (if fst st ! i then st
      else (mark_conflicts (node_neighbors edges i) (fst st), snd st @ [i]))"

definition maximalis_solve_sort :: "nat \<Rightarrow> (nat \<times> nat) list \<Rightarrow> py_error + nat list" where
  "maximalis_solve_sort n edges =
     (if list_ex (\<lambda>edge. fst edge \<ge> n \<or> snd edge \<ge> n) edges then Inl KeyError
      else Inr (snd (fold (mis_sort_step edges) [0 ..< n] (replicate n False, []))))"

text \<open>
  The two candidate motions of a gate \<open>(q0, q1)\<close>, as \<open>route_qubit_mis\<close> writes them:
  \<^verbatim>\<open>(q0_row, q0_col) = qubit_mapping[edge[0]]
(q1_row, q1_col) = qubit_mapping[edge[1]]
vectors[i] = (q0_col, q1_col, q0_row, q1_row, )
vectors[i+1] = (q1_col, q0_col, q1_row, q0_row, )\<close>
\<close>

definition candidate_fst :: "site list \<Rightarrow> gate \<Rightarrow> motion" where
  "candidate_fst qubit_mapping edge =
     (case (qubit_mapping ! fst edge, qubit_mapping ! snd edge) of
        ((q0_row, q0_col), (q1_row, q1_col)) \<Rightarrow> (q0_col, q1_col, q0_row, q1_row))"

definition candidate_snd :: "site list \<Rightarrow> gate \<Rightarrow> motion" where
  "candidate_snd qubit_mapping edge =
     (case (qubit_mapping ! fst edge, qubit_mapping ! snd edge) of
        ((q0_row, q0_col), (q1_row, q1_col)) \<Rightarrow> (q1_col, q0_col, q1_row, q0_row))"

text \<open>
  The loop that fills \<open>vectors\<close>, started with \<open>i = 0\<close> on a list of
  \<open>(0,0,0,0)\<close> entries.  With \<open>use_window\<close> the list has
  \<open>min(vector_threshold, 2*len(remain_graph))\<close> entries and an edge is written only
  when \<open>i + 1 < vector_length\<close>; without it the list has \<open>2*len(remain_graph)\<close>
  entries and every edge is written.  Reading \<open>qubit_mapping\<close> at a qubit index
  beyond its length raises IndexError.
\<close>

fun fill_vectors ::
  "bool \<Rightarrow> site list \<Rightarrow> gate list \<Rightarrow> nat \<Rightarrow> motion list \<Rightarrow> py_error + motion list" where
  "fill_vectors use_window qubit_mapping [] i vectors = Inr vectors"
| "fill_vectors use_window qubit_mapping (edge # rest) i vectors =
     (if use_window \<and> \<not> (i + 1 < length vectors)
      then fill_vectors use_window qubit_mapping rest i vectors
      else if fst edge \<ge> length qubit_mapping \<or> snd edge \<ge> length qubit_mapping
      then Inl IndexError
      else if i + 1 \<ge> length vectors then Inl IndexError
      else fill_vectors use_window qubit_mapping rest (i + 2)
             (vectors[i := candidate_fst qubit_mapping edge,
                      i + 1 := candidate_snd qubit_mapping edge]))"

definition vector_threshold :: nat where
  "vector_threshold = 1000"

definition make_vectors :: "bool \<Rightarrow> site list \<Rightarrow> gate list \<Rightarrow> py_error + motion list" where
  "make_vectors use_window qubit_mapping remain_graph =
     (let vector_length = (if use_window then min vector_threshold (2 * length remain_graph)
                           else 2 * length remain_graph)
      in fill_vectors use_window qubit_mapping remain_graph 0
           (replicate vector_length (0, 0, 0, 0)))"

text \<open>
  Loop invariant of \<open>maximalis_solve_sort\<close> after the vertices \<open>0 .. k-1\<close>: the
  selected vertices are among them, their neighbours are flagged, and no two of them
  are neighbours.
\<close>

definition mis_inv :: "(nat \<times> nat) list \<Rightarrow> nat \<Rightarrow> nat \<Rightarrow> bool list \<times> nat list \<Rightarrow> bool" where
  "mis_inv edges n k st \<longleftrightarrow>
     length (fst st) = n \<and> set (snd st) \<subseteq> {..<k} \<and>
     (\<forall>i \<in> set (snd st). \<forall>j < n. j \<in> set (node_neighbors edges i) \<longrightarrow> fst st ! j) \<and>
     (\<forall>i \<in> set (snd st). \<forall>j \<in> set (snd st). i \<noteq> j \<longrightarrow> j \<notin> set (node_neighbors edges i))"

section \<open>Router: the layer loop of route\_qubit\_mis (router\_mis.py)\<close>

text \<open>
  \<open>routing_strategy\<close> is a string in the source; it is compared with \<open>"mis"\<close> and
  \<open>"maximalis"\<close>, and every other value (the default is \<open>"maximalis_sorted"\<close>) takes
  the remaining branch.
\<close>

datatype routing_strategy = Mis | Maximalis | Maximalis_sorted

text \<open>
  The per-qubit dictionary of a layer (\<open>id, a, x, y, c, r\<close>), the dictionary of a fired
  gate (\<open>id, q0, q1\<close>) and a layer (\<open>qubits, gates\<close>).
\<close>

record qubit_entry =
  lq_id :: nat
  lq_a :: nat
  lq_x :: int
  lq_y :: int
  lq_c :: int
  lq_r :: int

record gate_entry =
  ge_id :: nat
  ge_q0 :: nat
  ge_q1 :: nat

record layer =
  l_qubits :: "qubit_entry list"
  l_gates :: "gate_entry list"

text \<open>
  What the source calls and this development does not define: the external independent
  set solvers (the \<open>redumis\<close> binary behind \<open>kamis_solve\<close>, and networkx behind
  \<open>maximalis_solve\<close>), the partial placer (its moves are modelled in the section on the
  partial placer; here only its result enters), and the order in which
  \<open>list(set_aod_qubit)\<close> enumerates a set.
\<close>

record externals =
  ext_kamis_solve :: "nat \<Rightarrow> (nat \<times> nat) list \<Rightarrow> nat \<Rightarrow> nat list"
  ext_maximalis_solve :: "nat \<Rightarrow> (nat \<times> nat) list \<Rightarrow> nat list"
  ext_place_qubit_partial ::
    "nat \<times> nat \<Rightarrow> nat \<Rightarrow> gate list list \<Rightarrow> site list \<Rightarrow> nat list \<Rightarrow> bool \<Rightarrow> py_error + site list"
  ext_list_of_set :: "nat list \<Rightarrow> nat list"

text \<open>The layer dictionary built from a mapping, with \<open>"a": 0\<close> and \<open>"gates": []\<close>.\<close>

definition mk_layer :: "site list \<Rightarrow> nat \<Rightarrow> layer" where
  "mk_layer qubit_mapping n_q =
     \<lparr>l_qubits = map (\<lambda>i. \<lparr>lq_id = i, lq_a = 0,
                              lq_x = fst (qubit_mapping ! i), lq_y = snd (qubit_mapping ! i),
                              lq_c = fst (qubit_mapping ! i), lq_r = snd (qubit_mapping ! i)\<rparr>)
                      [0 ..< n_q],
      l_gates = []\<rparr>"

text \<open>
  The sort key \<open>math.dist(p, q)\<close> is the square root of the squared distance; sorting by
  the squared distance gives the same order.  \<open>sorted(..., reverse=True)\<close> is stable, as
  is \<open>sort_key\<close> on the negated key.
\<close>

definition sq_dist :: "site \<Rightarrow> site \<Rightarrow> int" where
  "sq_dist p q = (fst p - fst q) * (fst p - fst q) + (snd p - snd q) * (snd p - snd q)"

definition sort_gates_by_distance :: "site list \<Rightarrow> gate list \<Rightarrow> gate list" where
  "sort_gates_by_distance qubit_mapping gates =
     sort_key (\<lambda>x. - sq_dist (qubit_mapping ! fst x) (qubit_mapping ! snd x)) gates"

text \<open>\<open>list.index\<close>, used only where the element is known to be present.\<close>

fun index_of :: "'a list \<Rightarrow> 'a \<Rightarrow> nat" where
  "index_of [] x = 0"
| "index_of (y # ys) x = (if y = x then 0 else Suc (index_of ys x))"

text \<open>The choice of solver in the first phase.\<close>

definition solve_first_phase ::
  "externals \<Rightarrow> routing_strategy \<Rightarrow> nat \<Rightarrow> (nat \<times> nat) list \<Rightarrow> nat \<Rightarrow> py_error + nat list" where
  "solve_first_phase ext routing_strategy n violations batch =
     (case routing_strategy of
        Mis \<Rightarrow> Inr (ext_kamis_solve ext n violations batch)
      | Maximalis \<Rightarrow> Inr (ext_maximalis_solve ext n violations)
      | Maximalis_sorted \<Rightarrow> maximalis_solve_sort n violations)"

text \<open>
  For a selected vertex \<open>i\<close>: the qubit that moves (\<open>aod_qubits\<close>) and the qubit whose
  site it moves to (\<open>target_qubits\<close>).
\<close>

definition mover :: "gate list \<Rightarrow> nat \<Rightarrow> nat" where
  "mover remain_graph i =
     (if i mod 2 = 0 then fst (remain_graph ! (i div 2)) else snd (remain_graph ! (i div 2)))"

definition partner :: "gate list \<Rightarrow> nat \<Rightarrow> nat" where
  "partner remain_graph i =
     (if i mod 2 = 0 then snd (remain_graph ! (i div 2)) else fst (remain_graph ! (i div 2)))"

definition target_qubits_of :: "gate list \<Rightarrow> nat list \<Rightarrow> (nat \<rightharpoonup> nat)" where
  "target_qubits_of remain_graph execute_gates =
     fold (\<lambda>i t. t(mover remain_graph i \<mapsto> partner remain_graph i)) execute_gates Map.empty"

text \<open>
  The dictionary appended to \<open>gates_dict\<close> for an executed gate:
  \<^verbatim>\<open>if gate in list_gates[index_list_gate]:
    {"id": list_gates[index_list_gate].index(gate), "q0": gate[0], "q1": gate[1]}
else:
    {"id": list_gates[index_list_gate].index((gate[1], gate[0])), "q0": gate[1], "q1": gate[0]}\<close>
  where \<open>index\<close> raises ValueError when the swapped gate is not in the list either.
\<close>

definition gate_dict_entry :: "gate list \<Rightarrow> gate \<Rightarrow> py_error + gate_entry" where
  "gate_dict_entry layer_gates gate =
     (if gate \<in> set layer_gates
      then Inr \<lparr>ge_id = index_of layer_gates gate, ge_q0 = fst gate, ge_q1 = snd gate\<rparr>
      else if (snd gate, fst gate) \<in> set layer_gates
      then Inr \<lparr>ge_id = index_of layer_gates (snd gate, fst gate),
                ge_q0 = snd gate, ge_q1 = fst gate\<rparr>
      else Inl ValueError)"

fun gate_dict_entries :: "gate list \<Rightarrow> gate list \<Rightarrow> py_error + gate_entry list" where
  "gate_dict_entries layer_gates [] = Inr []"
| "gate_dict_entries layer_gates (gate # tmp) =
     (case gate_dict_entry layer_gates gate of
        Inl e \<Rightarrow> Inl e
      | Inr d \<Rightarrow> (case gate_dict_entries layer_gates tmp of
                    Inl e \<Rightarrow> Inl e
                  | Inr ds \<Rightarrow> Inr (d # ds)))"

text \<open>
  \<^verbatim>\<open>for i in range(n_q):
    if i in aod_qubits:
        qubit_mapping[i] = qubit_mapping[target_qubits[i]]\<close>
\<close>

definition move_qubits :: "nat \<Rightarrow> nat list \<Rightarrow> (nat \<rightharpoonup> nat) \<Rightarrow> site list \<Rightarrow> site list" where
  "move_qubits n_q aod_qubits target_qubits qubit_mapping =
     fold (\<lambda>i m. if i \<in> set aod_qubits then m[i := m ! the (target_qubits i)] else m)
          [0 ..< n_q] qubit_mapping"

text \<open>
  \<^verbatim>\<open>for qubit in layers[-2]["qubits"]:
    if qubit["id"] in layer_aod[-1]:
        qubit["a"] = 1\<close>
\<close>

definition mark_aod :: "nat list \<Rightarrow> layer \<Rightarrow> layer" where
  "mark_aod aod_qubits l =
     l\<lparr>l_qubits := map (\<lambda>qubit. if lq_id qubit \<in> set aod_qubits then qubit\<lparr>lq_a := 1\<rparr> else qubit)
                         (l_qubits l)\<rparr>"

text \<open>Appending a layer built from the mapping and marking the layer before it.\<close>

definition append_layer :: "site list \<Rightarrow> nat \<Rightarrow> nat list \<Rightarrow> layer list \<Rightarrow> layer list" where
  "append_layer qubit_mapping n_q aod_qubits layers =
     butlast layers @ [mark_aod aod_qubits (last layers), mk_layer qubit_mapping n_q]"

text \<open>
  \<^verbatim>\<open>tmp = [edge for g, edge in enumerate(remain_graph)
       if 2*g not in execute_gates and 2*g+1 not in execute_gates]\<close>
\<close>

definition remaining_gates :: "nat list \<Rightarrow> gate list \<Rightarrow> gate list" where
  "remaining_gates execute_gates remain_graph =
     map snd (filter (\<lambda>ge. 2 * fst ge \<notin> set execute_gates \<and> 2 * fst ge + 1 \<notin> set execute_gates)
                     (enumerate 0 remain_graph))"

text \<open>The variables that the first \<open>while\<close> loop updates.\<close>

record route_state =
  rs_remain :: "gate list"
  rs_mapping :: "site list"
  rs_layers :: "layer list"
  rs_gates_dict :: "gate_entry list"
  rs_layer_aod :: "nat list list"
  rs_set_aod :: "nat list"
  rs_batch :: nat

text \<open>
  One pass of \<^verbatim>\<open>while remain_graph:\<close>.  \<open>set_aod_qubit\<close> is kept as a list without
  repetitions.  The IndexError branches are the reads \<open>remain_graph[i//2]\<close> and
  \<open>qubit_mapping[target_qubits[i]]\<close> outside the lists.
\<close>

definition route_pass ::
  "externals \<Rightarrow> routing_strategy \<Rightarrow> bool \<Rightarrow> nat \<Rightarrow> gate list \<Rightarrow> route_state \<Rightarrow>
   py_error + route_state" where
  "route_pass ext routing_strategy use_window n_q layer_gates st =
     (case make_vectors use_window (rs_mapping st) (rs_remain st) of
        Inl e \<Rightarrow> Inl e
      | Inr vectors \<Rightarrow>
     (case solve_first_phase ext routing_strategy (length vectors) (build_violations vectors)
             (rs_batch st) of
        Inl e \<Rightarrow> Inl e
      | Inr execute_gates \<Rightarrow>
     (if list_ex (\<lambda>i. i div 2 \<ge> length (rs_remain st)) execute_gates then Inl IndexError
      else
       (let aod_qubits = map (mover (rs_remain st)) execute_gates;
            target_qubits = target_qubits_of (rs_remain st) execute_gates;
            tmp = map (\<lambda>g. rs_remain st ! (g div 2)) execute_gates
        in case gate_dict_entries layer_gates tmp of
             Inl e \<Rightarrow> Inl e
           | Inr new_entries \<Rightarrow>
               if list_ex (\<lambda>i. i \<in> set aod_qubits \<and>
                               length (rs_mapping st) \<le> the (target_qubits i)) [0 ..< n_q]
               then Inl IndexError
               else
                (let qubit_mapping = move_qubits n_q aod_qubits target_qubits (rs_mapping st)
                 in Inr \<lparr>rs_remain = remaining_gates execute_gates (rs_remain st),
                         rs_mapping = qubit_mapping,
                         rs_layers = append_layer qubit_mapping n_q aod_qubits (rs_layers st),
                         rs_gates_dict = rs_gates_dict st @ new_entries,
                         rs_layer_aod = rs_layer_aod st @ [aod_qubits],
                         rs_set_aod = remdups (rs_set_aod st @ aod_qubits),
                         rs_batch = rs_batch st + 1\<rparr>)))))"

text \<open>
  The loop \<^verbatim>\<open>while remain_graph:\<close>.  With an external solver a pass may select
  nothing, and the loop then never ends; the model counts passes and gives \<open>None\<close> when
  the count is used up.
\<close>

fun route_loop ::
  "nat \<Rightarrow> externals \<Rightarrow> routing_strategy \<Rightarrow> bool \<Rightarrow> nat \<Rightarrow> gate list \<Rightarrow> route_state \<Rightarrow>
   (py_error + route_state) option" where
  "route_loop 0 ext routing_strategy use_window n_q layer_gates st =
     (if rs_remain st = [] then Some (Inr st) else None)"
| "route_loop (Suc fuel) ext routing_strategy use_window n_q layer_gates st =
     (if rs_remain st = [] then Some (Inr st)
      else case route_pass ext routing_strategy use_window n_q layer_gates st of
             Inl e \<Rightarrow> Some (Inl e)
           | Inr st' \<Rightarrow> route_loop fuel ext routing_strategy use_window n_q layer_gates st')"

text \<open>\<^verbatim>\<open>layers[-1]["gates"] = gates_dict\<close> after the loop.\<close>

definition attach_gates :: "gate_entry list \<Rightarrow> layer list \<Rightarrow> layer list" where
  "attach_gates gates_dict layers = butlast layers @ [(last layers)\<lparr>l_gates := gates_dict\<rparr>]"

text \<open>
  The branch \<^verbatim>\<open>if reverse_to_initial:\<close>.  The last layer takes \<open>a, c, r\<close> from the layer
  before it (\<open>layers[-2]\<close>, an IndexError when there is a qubit and only one layer); then
  for \<open>i = len(layers)-2, ..., 1\<close> a layer with the coordinates of \<open>layers[i]\<close> and the
  \<open>a, c, r\<close> of \<open>layers[i-1]\<close> is appended, and finally \<open>last_layer\<close>.
\<close>

definition copy_acr :: "qubit_entry \<Rightarrow> qubit_entry \<Rightarrow> qubit_entry" where
  "copy_acr src dst = dst\<lparr>lq_a := lq_a src, lq_c := lq_c src, lq_r := lq_r src\<rparr>"

definition reverse_layer :: "layer list \<Rightarrow> nat \<Rightarrow> nat \<Rightarrow> layer" where
  "reverse_layer layers n_q i =
     \<lparr>l_qubits = map (\<lambda>j. \<lparr>lq_id = j,
                              lq_a = lq_a (l_qubits (layers ! (i - 1)) ! j),
                              lq_x = lq_x (l_qubits (layers ! i) ! j),
                              lq_y = lq_y (l_qubits (layers ! i) ! j),
                              lq_c = lq_c (l_qubits (layers ! (i - 1)) ! j),
                              lq_r = lq_r (l_qubits (layers ! (i - 1)) ! j)\<rparr>)
                      [0 ..< n_q],
      l_gates = []\<rparr>"

definition reverse_phase :: "nat \<Rightarrow> layer \<Rightarrow> layer list \<Rightarrow> py_error + layer list" where
  "reverse_phase n_q last_layer layers =
     (if length (l_qubits (last layers)) > 0 \<and> length layers < 2 then Inl IndexError
      else
       (let prev = layers ! (length layers - 2);
            lst = last layers;
            lst' = lst\<lparr>l_qubits := map (\<lambda>q. copy_acr (l_qubits prev ! q) (l_qubits lst ! q))
                                        [0 ..< length (l_qubits lst)]\<rparr>;
            layers' = butlast layers @ [lst'];
            reverse_layers = map (reverse_layer layers' n_q) (rev [1 ..< length layers' - 1])
        in Inr (layers' @ reverse_layers @ [last_layer])))"

text \<open>
  The branch that moves the touched qubits to the sites chosen by the partial placer.
  The motion vectors, with or without the window:
  \<^verbatim>\<open>vectors[i] = (qubit_mapping[q][0], initial_mapping[q][0],
              qubit_mapping[q][1], initial_mapping[q][1])\<close>
\<close>

definition replace_vectors :: "bool \<Rightarrow> site list \<Rightarrow> site list \<Rightarrow> nat list \<Rightarrow> motion list" where
  "replace_vectors use_window qubit_mapping initial_mapping list_aod_qubit =
     (let vector_length = (if use_window then min vector_threshold (length list_aod_qubit)
                           else length list_aod_qubit)
      in map (\<lambda>q. (fst (qubit_mapping ! q), fst (initial_mapping ! q),
                    snd (qubit_mapping ! q), snd (initial_mapping ! q)))
             (take vector_length list_aod_qubit))"

definition replace_pass ::
  "externals \<Rightarrow> routing_strategy \<Rightarrow> bool \<Rightarrow> nat \<Rightarrow> site list \<Rightarrow> nat list \<times> route_state \<Rightarrow>
   py_error + nat list \<times> route_state" where
  "replace_pass ext routing_strategy use_window n_q initial_mapping ls =
     (let list_aod_qubit = fst ls; st = snd ls;
          in_range = (\<lambda>q. q < length (rs_mapping st) \<and> q < length initial_mapping);
          vectors = replace_vectors use_window (rs_mapping st) initial_mapping list_aod_qubit
      in if \<not> list_all in_range (take (length vectors) list_aod_qubit) then Inl IndexError
         else
          (let violations = build_violations vectors;
               moved_qubits = (if routing_strategy = Mis
                               then ext_kamis_solve ext (length vectors) violations (rs_batch st)
                               else ext_maximalis_solve ext (length vectors) violations)
           in if \<not> list_all (\<lambda>i. i < length list_aod_qubit \<and> in_range (list_aod_qubit ! i))
                               moved_qubits
              then Inl IndexError
              else
               (let aod_qubits = map (\<lambda>i. list_aod_qubit ! i) moved_qubits;
                    qubit_mapping = fold (\<lambda>q m. m[q := initial_mapping ! q]) aod_qubits
                                         (rs_mapping st)
                in Inr (filter (\<lambda>q. index_of list_aod_qubit q \<notin> set moved_qubits) list_aod_qubit,
                        st\<lparr>rs_mapping := qubit_mapping,
                           rs_layers := append_layer qubit_mapping n_q aod_qubits (rs_layers st),
                           rs_layer_aod := rs_layer_aod st @ [aod_qubits],
                           rs_batch := rs_batch st + 1\<rparr>))))"

fun replace_loop ::
  "nat \<Rightarrow> externals \<Rightarrow> routing_strategy \<Rightarrow> bool \<Rightarrow> nat \<Rightarrow> site list \<Rightarrow> nat list \<times> route_state \<Rightarrow>
   (py_error + route_state) option" where
  "replace_loop 0 ext routing_strategy use_window n_q initial_mapping ls =
     (if fst ls = [] then Some (Inr (snd ls)) else None)"
| "replace_loop (Suc fuel) ext routing_strategy use_window n_q initial_mapping ls =
     (if fst ls = [] then Some (Inr (snd ls))
      else case replace_pass ext routing_strategy use_window n_q initial_mapping ls of
             Inl e \<Rightarrow> Some (Inl e)
           | Inr ls' \<Rightarrow> replace_loop fuel ext routing_strategy use_window n_q initial_mapping ls')"

definition sort_qubits_by_distance :: "site list \<Rightarrow> site list \<Rightarrow> nat list \<Rightarrow> nat list" where
  "sort_qubits_by_distance qubit_mapping initial_mapping qs =
     sort_key (\<lambda>x. - sq_dist (qubit_mapping ! x) (initial_mapping ! x)) qs"

definition replace_phase ::
  "nat \<Rightarrow> externals \<Rightarrow> nat \<times> nat \<Rightarrow> nat \<Rightarrow> nat \<Rightarrow> gate list list \<Rightarrow> site list \<Rightarrow>
   routing_strategy \<Rightarrow> bool \<Rightarrow> bool \<Rightarrow> route_state \<Rightarrow> (py_error + layer list \<times> site list) option" where
  "replace_phase fuel ext chip_dim n_q index_list_gate list_gates initial_mapping
       routing_strategy l2 use_window st =
     (let list_aod_qubit = ext_list_of_set ext (rs_set_aod st);
          list_gate_next_layers = drop index_list_gate list_gates
      in case ext_place_qubit_partial ext chip_dim n_q list_gate_next_layers initial_mapping
                list_aod_qubit l2 of
           Inl e \<Rightarrow> Some (Inl e)
         | Inr placed \<Rightarrow>
             if routing_strategy = Maximalis_sorted \<and>
                \<not> list_all (\<lambda>q. q < length (rs_mapping st) \<and> q < length placed) list_aod_qubit
             then Some (Inl IndexError)
             else
              (let sorted_aod = (if routing_strategy = Maximalis_sorted
                                 then sort_qubits_by_distance (rs_mapping st) placed list_aod_qubit
                                 else list_aod_qubit)
               in case replace_loop fuel ext routing_strategy use_window n_q placed (sorted_aod, st) of
                    None \<Rightarrow> None
                  | Some (Inl e) \<Rightarrow> Some (Inl e)
                  | Some (Inr st') \<Rightarrow> Some (Inr (rs_layers st', placed))))"

text \<open>The closing loop \<^verbatim>\<open>layers[-1]["qubits"][q]["a"] = 0\<close>.\<close>

definition clear_last_a :: "layer list \<Rightarrow> layer list" where
  "clear_last_a layers =
     butlast layers @ [(last layers)\<lparr>l_qubits := map (\<lambda>q. q\<lparr>lq_a := 0\<rparr>) (l_qubits (last layers))\<rparr>]"

text \<open>
  The returned \<open>data\<close> dictionary (without the wall-clock \<open>runtime\<close>) and
  \<open>route_qubit_mis\<close> itself, which returns \<open>data\<close> and \<open>initial_mapping\<close> (the measured
  placement time is left out).  \<open>initial_mapping\<close> is a copy of the argument
  \<open>qubit_mapping\<close>, replaced only in the branch of the partial placer.  The first reads
  that can fail are \<open>qubit_mapping[i]\<close> for \<open>i < n_q\<close>, \<open>list_gates[index_list_gate]\<close> and,
  for the sorted strategy, the sort key at the qubits of each gate.
\<close>

record route_data =
  rd_layers :: "layer list"
  rd_n_q :: nat
  rd_g_q :: "gate list list"

definition route_qubit_mis ::
  "nat \<Rightarrow> externals \<Rightarrow> nat \<times> nat \<Rightarrow> nat \<Rightarrow> nat \<Rightarrow> gate list list \<Rightarrow> site list \<Rightarrow>
   routing_strategy \<Rightarrow> bool \<Rightarrow> bool \<Rightarrow> bool \<Rightarrow> (py_error + route_data \<times> site list) option" where
  "route_qubit_mis fuel ext chip_dim n_q index_list_gate list_gates qubit_mapping
       routing_strategy reverse_to_initial l2 use_window =
     (let initial_mapping = qubit_mapping;
          data = (\<lambda>layers. \<lparr>rd_layers = clear_last_a layers, rd_n_q = n_q, rd_g_q = list_gates\<rparr>)
      in if length qubit_mapping < n_q then Some (Inl IndexError)
         else if length list_gates \<le> index_list_gate then Some (Inl IndexError)
         else if routing_strategy = Maximalis_sorted \<and>
                 list_ex (\<lambda>g. length qubit_mapping \<le> fst g \<or> length qubit_mapping \<le> snd g)
                         (list_gates ! index_list_gate)
         then Some (Inl IndexError)
         else
          (let layer_gates = list_gates ! index_list_gate;
               remain_graph = (if routing_strategy = Maximalis_sorted
                               then sort_gates_by_distance qubit_mapping layer_gates
                               else layer_gates);
               last_layer = mk_layer qubit_mapping n_q;
               st0 = \<lparr>rs_remain = remain_graph, rs_mapping = qubit_mapping,
                      rs_layers = [mk_layer qubit_mapping n_q], rs_gates_dict = [],
                      rs_layer_aod = [], rs_set_aod = [], rs_batch = 0\<rparr>
           in case route_loop fuel ext routing_strategy use_window n_q layer_gates st0 of
                None \<Rightarrow> None
              | Some (Inl e) \<Rightarrow> Some (Inl e)
              | Some (Inr st) \<Rightarrow>
                 (let layers = attach_gates (rs_gates_dict st) (rs_layers st)
                  in if reverse_to_initial
                     then (case reverse_phase n_q last_layer layers of
                             Inl e \<Rightarrow> Some (Inl e)
                           | Inr layers' \<Rightarrow> Some (Inr (data layers', initial_mapping)))
                     else if index_list_gate + 1 < length list_gates
                     then (case replace_phase fuel ext chip_dim n_q index_list_gate list_gates
                                  initial_mapping routing_strategy l2 use_window
                                  (st\<lparr>rs_layers := layers\<rparr>) of
                             None \<Rightarrow> None
                           | Some (Inl e) \<Rightarrow> Some (Inl e)
                           | Some (Inr (layers', placed)) \<Rightarrow> Some (Inr (data layers', placed)))
                     else Some (Inr (data layers, initial_mapping)))))"

text \<open>
  Well-formed layer for a mapping: the gates of a layer are pairwise distinct, no gate
  joins a qubit with itself, two different gates share no qubit, every qubit index is
  inside the mapping, and the two qubits of a gate sit on different sites.
\<close>

definition layer_wf :: "site list \<Rightarrow> gate list \<Rightarrow> bool" where
  "layer_wf qubit_mapping gates \<longleftrightarrow>
     distinct gates \<and>
     (\<forall>g \<in> set gates. fst g \<noteq> snd g \<and>
                       fst g < length qubit_mapping \<and> snd g < length qubit_mapping \<and>
                       qubit_mapping ! fst g \<noteq> qubit_mapping ! snd g) \<and>
     (\<forall>g \<in> set gates. \<forall>h \<in> set gates. g \<noteq> h \<longrightarrow>
        fst g \<noteq> fst h \<and> fst g \<noteq> snd h \<and> snd g \<noteq> fst h \<and> snd g \<noteq> snd h)"

text \<open>The qubit pair of a fired gate.\<close>

definition gate_of_entry :: "gate_entry \<Rightarrow> gate" where
  "gate_of_entry d = (ge_q0 d, ge_q1 d)"

text \<open>
  Invariant of the first loop of \<open>route_qubit_mis\<close> for the gates \<open>layer_gates\<close> of the
  layer and the mapping \<open>m0\<close> at its start: the remaining gates are gates of the layer
  whose qubits have not moved yet, the fired and the remaining gates together are the
  gates of the layer, and no layer built so far carries gates.
\<close>

definition route_inv :: "site list \<Rightarrow> gate list \<Rightarrow> route_state \<Rightarrow> bool" where
  "route_inv m0 layer_gates st \<longleftrightarrow>
     length (rs_mapping st) = length m0 \<and>
     distinct (rs_remain st) \<and>
     set (rs_remain st) \<subseteq> set layer_gates \<and>
     (\<forall>g \<in> set (rs_remain st).
        rs_mapping st ! fst g = m0 ! fst g \<and> rs_mapping st ! snd g = m0 ! snd g) \<and>
     mset (map gate_of_entry (rs_gates_dict st)) + mset (rs_remain st) = mset layer_gates \<and>
     rs_layers st \<noteq> [] \<and>
     (\<forall>l \<in> set (rs_layers st). l_gates l = [])"

text \<open>
  The gates carried by a list of layers, in order, and the number of layers that carry
  at least one gate.
\<close>

definition fired_gates :: "layer list \<Rightarrow> gate_entry list" where
  "fired_gates layers = concat (map l_gates layers)"

definition gate_layers :: "layer list \<Rightarrow> nat" where
  "gate_layers layers = length (filter (\<lambda>l. l_gates l \<noteq> []) layers)"

text \<open>The state in which \<open>route_qubit_mis\<close> enters its first loop (sorted strategy).\<close>

definition route_start :: "site list \<Rightarrow> nat \<Rightarrow> gate list \<Rightarrow> route_state" where
  "route_start m n_q L = \<lparr>rs_remain = sort_gates_by_distance m L, rs_mapping = m,
                         rs_layers = [mk_layer m n_q], rs_gates_dict = [],
                         rs_layer_aod = [], rs_set_aod = [], rs_batch = 0\<rparr>"

section \<open>Placers: geometry sizing (placer.py, placer\_parital\_mapping.py)\<close>

text \<open>
  \<open>int(math.sqrt(n_qubit))\<close>: the square root is truncated, so the value is the
  greatest \<open>k\<close> with \<open>k * k \<le> n_qubit\<close>.  It is found here by a downward search from
  \<open>n_qubit\<close>.  (The source takes the root in double precision, which gives the same
  integer for every qubit count below \<open>2^52\<close>.)
\<close>

primrec sqrt_search :: "nat \<Rightarrow> nat \<Rightarrow> nat" where
  "sqrt_search n 0 = 0"
| "sqrt_search n (Suc k) = (if Suc k * Suc k \<le> n then Suc k else sqrt_search n k)"

definition py_int_sqrt :: "nat \<Rightarrow> nat" where
  "py_int_sqrt n = sqrt_search n n"

text \<open>
  \<open>SAPlacer.run\<close>, the lines that fix the working grid:
  \<^verbatim>\<open>length = int(math.sqrt(n_qubit)) + 4
self.chip_dim = (min(chip_dim[0], length), min(chip_dim[1], length))
if self.chip_dim[0] * self.chip_dim[1] < self.n_qubit:
    self.chip_dim = chip_dim\<close>
  \<open>SAPlacerPartial.run\<close> has the same four lines.
\<close>

definition SAPlacer_chip_dim :: "nat \<times> nat \<Rightarrow> nat \<Rightarrow> nat \<times> nat" where
  "SAPlacer_chip_dim chip_dim n_qubit =
     (let length = py_int_sqrt n_qubit + 4;
          self_chip_dim = (min (fst chip_dim) length, min (snd chip_dim) length)
      in if fst self_chip_dim * snd self_chip_dim < n_qubit then chip_dim else self_chip_dim)"

definition SAPlacerPartial_chip_dim :: "nat \<times> nat \<Rightarrow> nat \<Rightarrow> nat \<times> nat" where
  "SAPlacerPartial_chip_dim chip_dim n_qubit =
     (let length = py_int_sqrt n_qubit + 4;
          self_chip_dim = (min (fst chip_dim) length, min (snd chip_dim) length)
      in if fst self_chip_dim * snd self_chip_dim < n_qubit then chip_dim else self_chip_dim)"

text \<open>
  The sizing rule in the words of the specification: the side of the virtual square is
  the square root rounded up, plus four.
\<close>

definition spec_virtual_side :: "nat \<Rightarrow> nat" where
  "spec_virtual_side n_qubit = nat \<lceil>sqrt (real n_qubit)\<rceil> + 4"

definition spec_working_grid :: "nat \<times> nat \<Rightarrow> nat \<Rightarrow> nat \<times> nat" where
  "spec_working_grid chip_dim n_qubit =
     (let l = spec_virtual_side n_qubit
      in if min (fst chip_dim) l * min (snd chip_dim) l < n_qubit then chip_dim
         else (min (fst chip_dim) l, min (snd chip_dim) l))"

section \<open>Scheduler (gate\_scheduler.py, graph.py)\<close>




definition rx_place_edge ::
  "(nat \<times> nat) list \<Rightarrow> nat \<Rightarrow> py_error + nat list list \<Rightarrow> py_error + nat list list" where
  "rx_place_edge edge_colors i acc =
     (case acc of
        Inl e \<Rightarrow> Inl e
      | Inr result \<Rightarrow>
          (case map_of edge_colors i of
             None \<Rightarrow> Inl KeyError
           | Some c \<Rightarrow> if c < length result then Inr (result[c := result ! c @ [i]])
                       else Inl IndexError))"





section \<open>Code generator: the program tree and its Rydberg instructions (codegen.py, router.py)\<close>

text \<open>
  An instruction is a basic instruction (\<open>Inst\<close>) with its \<open>duration\<close> attribute and its
  code dictionary, or a \<open>ComboInst\<close> with an ordered list of children.  The code of a
  basic instruction is an \<open>Init\<close>, a \<open>Rydberg\<close> with its stage and its \<open>gates\<close> list, or
  the code of a \<open>Move\<close>, \<open>Activate\<close> or \<open>Deactivate\<close>, whose payload is the type
  parameter \<open>'m\<close>.
\<close>

datatype 'm code = Init_code | Rydberg_code nat "gate_entry list" | Motion_code 'm

datatype 'c inst = Inst real 'c | ComboInst "'c inst list"

text \<open>
  \<open>is_trivial\<close>: a basic instruction is trivial when its duration is \<open>0\<close>, a combined one
  when all its children are.  \<open>remove_trivial_insts\<close> first cleans each child and then
  keeps the children that are not trivial.  \<open>emit_full\<close> concatenates the codes.
\<close>

fun is_trivial :: "'c inst \<Rightarrow> bool" where
  "is_trivial (Inst duration c) = (duration = 0)"
| "is_trivial (ComboInst insts) = list_all is_trivial insts"

fun remove_trivial_insts :: "'c inst \<Rightarrow> 'c inst" where
  "remove_trivial_insts (Inst duration c) = Inst duration c"
| "remove_trivial_insts (ComboInst insts) =
     ComboInst (filter (\<lambda>inst. \<not> is_trivial inst) (map remove_trivial_insts insts))"

fun emit_full :: "'c inst \<Rightarrow> 'c list" where
  "emit_full (Inst duration c) = [c]"
| "emit_full (ComboInst insts) = concat (map emit_full insts)"

fun prepend_inst :: "'c inst \<Rightarrow> 'c inst \<Rightarrow> 'c inst" where
  "prepend_inst inst (ComboInst insts) = ComboInst (inst # insts)"
| "prepend_inst inst (Inst duration c) = Inst duration c"

text \<open>
  The parts of \<open>CodeGen\<close> that build \<open>Init\<close>, \<open>Move\<close>, \<open>Activate\<close> and \<open>Deactivate\<close>
  instructions enter the program tree as given functions of the stage and the layers:
  \<open>builder_init\<close> (which can raise in \<open>Init.verify\<close>), \<open>builder_reload\<close>, \<open>builder_move\<close>
  and \<open>builder_offload\<close> (each appends one instruction of motions to the program, or
  raises).  They construct no \<open>Rydberg\<close> instruction and do not write the \<open>gates\<close> of a
  layer.
\<close>

record 'm codegen_ext =
  cg_builder_init :: "layer list \<Rightarrow> py_error + unit"
  cg_builder_reload :: "nat \<Rightarrow> layer list \<Rightarrow> py_error + 'm inst"
  cg_builder_move :: "nat \<Rightarrow> layer list \<Rightarrow> py_error + 'm inst"
  cg_builder_offload :: "nat \<Rightarrow> layer list \<Rightarrow> py_error + 'm inst"

text \<open>
  \<open>builder_rydberg(s, ...)\<close> appends \<open>Rydberg(s, cols, rows, qubits, layers[s]['gates'])\<close>.
  A \<open>Rydberg\<close> never assigns \<open>self.duration\<close>, which keeps the initial value \<open>-1\<close>.
\<close>

definition builder_rydberg :: "layer list \<Rightarrow> nat \<Rightarrow> 'm code inst" where
  "builder_rydberg layers s = Inst (- 1) (Rydberg_code s (l_gates (layers ! s)))"

text \<open>
  The body of the loop \<^verbatim>\<open>for s in range(1, len(self.layers))\<close> of \<open>builder\<close>, called
  with \<open>no_transfer = False\<close>: reload, move, offload, and the Rydberg instruction when
  the layer has gates.
\<close>

definition builder_stage ::
  "'m codegen_ext \<Rightarrow> layer list \<Rightarrow> nat \<Rightarrow> py_error + 'm code inst list" where
  "builder_stage cg layers s =
     (case cg_builder_reload cg s layers of
        Inl e \<Rightarrow> Inl e
      | Inr reload_obj \<Rightarrow>
     (case cg_builder_move cg s layers of
        Inl e \<Rightarrow> Inl e
      | Inr move_obj \<Rightarrow>
     (case cg_builder_offload cg s layers of
        Inl e \<Rightarrow> Inl e
      | Inr offload_obj \<Rightarrow>
          Inr ([map_inst Motion_code reload_obj, map_inst Motion_code move_obj,
                map_inst Motion_code offload_obj] @
               (if length (l_gates (layers ! s)) > 0 then [builder_rydberg layers s] else [])))))"

fun builder_stages ::
  "'m codegen_ext \<Rightarrow> layer list \<Rightarrow> nat list \<Rightarrow> py_error + 'm code inst list" where
  "builder_stages cg layers [] = Inr []"
| "builder_stages cg layers (s # ss) =
     (case builder_stage cg layers s of
        Inl e \<Rightarrow> Inl e
      | Inr insts \<Rightarrow>
          (case builder_stages cg layers ss of
             Inl e \<Rightarrow> Inl e
           | Inr later \<Rightarrow> Inr (insts @ later)))"

text \<open>
  \<open>CodeGen.builder\<close>: the program starts with the Rydberg instruction of stage 0
  (appended by \<open>builder_init\<close>), the stages follow, trivial instructions are removed and
  the \<open>Init\<close> instruction is put in front.  Reading \<open>layers[0]\<close> of an empty list raises.
\<close>

definition builder :: "'m codegen_ext \<Rightarrow> layer list \<Rightarrow> py_error + 'm code inst" where
  "builder cg layers =
     (if layers = [] then Inl IndexError
      else case cg_builder_init cg layers of
             Inl e \<Rightarrow> Inl e
           | Inr u \<Rightarrow>
               (case builder_stages cg layers [1 ..< length layers] of
                  Inl e \<Rightarrow> Inl e
                | Inr insts \<Rightarrow>
                    Inr (prepend_inst (Inst (- 1) Init_code)
                           (remove_trivial_insts (ComboInst (builder_rydberg layers 0 # insts))))))"

text \<open>
  \<open>route_qubit\<close>: one call of \<open>route_qubit_mis\<close> and of the code generator per layer, the
  mapping returned by one call being the argument of the next; the codes of the first
  layer are taken whole, those of a later layer without their first two entries
  (\<^verbatim>\<open>program_list += tmp[2:]\<close>).
\<close>

fun route_layers ::
  "nat \<Rightarrow> externals \<Rightarrow> 'm codegen_ext \<Rightarrow> nat \<Rightarrow> nat \<Rightarrow> nat \<Rightarrow> gate list list \<Rightarrow>
   routing_strategy \<Rightarrow> bool \<Rightarrow> bool \<Rightarrow> bool \<Rightarrow> nat list \<Rightarrow> 'm code list \<times> site list \<Rightarrow>
   (py_error + 'm code list \<times> site list) option" where
  "route_layers fuel ext cg n_x n_y n_q list_full_gates routing_strategy reverse_to_initial
       l2 use_window [] acc = Some (Inr acc)"
| "route_layers fuel ext cg n_x n_y n_q list_full_gates routing_strategy reverse_to_initial
       l2 use_window (index_list_gate # rest) acc =
     (case route_qubit_mis fuel ext (n_x, n_y) n_q index_list_gate list_full_gates (snd acc)
             routing_strategy reverse_to_initial l2 use_window of
        None \<Rightarrow> None
      | Some (Inl e) \<Rightarrow> Some (Inl e)
      | Some (Inr (data, final_mapping)) \<Rightarrow>
          (case builder cg (rd_layers data) of
             Inl e \<Rightarrow> Some (Inl e)
           | Inr program \<Rightarrow>
               (let tmp = emit_full program
                in route_layers fuel ext cg n_x n_y n_q list_full_gates routing_strategy
                     reverse_to_initial l2 use_window rest
                     (fst acc @ (if index_list_gate = 0 then tmp else drop 2 tmp),
                      final_mapping))))"




text \<open>
  The condition under which a run of \<open>route_qubit\<close> is examined: each layer is well
  formed for the mapping with which its routing starts.
\<close>

fun layers_wf_run ::
  "nat \<Rightarrow> externals \<Rightarrow> nat \<Rightarrow> nat \<Rightarrow> nat \<Rightarrow> gate list list \<Rightarrow>
   routing_strategy \<Rightarrow> bool \<Rightarrow> bool \<Rightarrow> bool \<Rightarrow> nat list \<Rightarrow> site list \<Rightarrow> bool" where
  "layers_wf_run fuel ext n_x n_y n_q list_full_gates routing_strategy reverse_to_initial
       l2 use_window [] qubit_mapping = True"
| "layers_wf_run fuel ext n_x n_y n_q list_full_gates routing_strategy reverse_to_initial
       l2 use_window (index_list_gate # rest) qubit_mapping =
     (layer_wf qubit_mapping (list_full_gates ! index_list_gate) \<and>
      (case route_qubit_mis fuel ext (n_x, n_y) n_q index_list_gate list_full_gates qubit_mapping
              routing_strategy reverse_to_initial l2 use_window of
         Some (Inr (data, final_mapping)) \<Rightarrow>
           layers_wf_run fuel ext n_x n_y n_q list_full_gates routing_strategy
             reverse_to_initial l2 use_window rest final_mapping
       | _ \<Rightarrow> True))"

text \<open>
  Collaborators for the worked examples: solvers that are never consulted by the sorted
  strategy with reverse-to-initial, a placer that keeps the mapping, and motion builders
  that emit one activation-like instruction, one trivial move and an empty offload.
\<close>

definition example_externals :: externals where
  "example_externals =
     \<lparr>ext_kamis_solve = (\<lambda>n e b. []), ext_maximalis_solve = (\<lambda>n e. [0]),
      ext_place_qubit_partial = (\<lambda>cd n gs m t l2. Inr m), ext_list_of_set = (\<lambda>xs. xs)\<rparr>"

definition example_codegen :: "nat codegen_ext" where
  "example_codegen =
     \<lparr>cg_builder_init = (\<lambda>ls. Inr ()),
      cg_builder_reload = (\<lambda>s ls. Inr (ComboInst [Inst 15 s])),
      cg_builder_move = (\<lambda>s ls. Inr (Inst 0 s)),
      cg_builder_offload = (\<lambda>s ls. Inr (ComboInst []))\<rparr>"

section \<open>Properties of the motion compatibility relation and the independent set\<close>

lemma compatible_2D_iff:
  "compatible_2D (a0, a1, a2, a3) (b0, b1, b2, b3) \<longleftrightarrow>
     \<not> (a0 = b0 \<and> a1 \<noteq> b1) \<and> \<not> (a1 = b1 \<and> a0 \<noteq> b0) \<and>
     \<not> (a0 < b0 \<and> a1 \<ge> b1) \<and> \<not> (a0 > b0 \<and> a1 \<le> b1) \<and>
     \<not> (a2 = b2 \<and> a3 \<noteq> b3) \<and> \<not> (a3 = b3 \<and> a2 \<noteq> b2) \<and>
     \<not> (a2 < b2 \<and> a3 \<ge> b3) \<and> \<not> (a2 > b2 \<and> a3 \<le> b3)"
  unfolding compatible_2D.simps by (simp only: if_False if_True split: if_split) blast

lemma axis_sym:
  fixes a0 a1 b0 b1 :: int
  shows "(\<not> (a0 = b0 \<and> a1 \<noteq> b1) \<and> \<not> (a1 = b1 \<and> a0 \<noteq> b0) \<and>
     \<not> (a0 < b0 \<and> a1 \<ge> b1) \<and> \<not> (a0 > b0 \<and> a1 \<le> b1)) \<longleftrightarrow>
     (\<not> (b0 = a0 \<and> b1 \<noteq> a1) \<and> \<not> (b1 = a1 \<and> b0 \<noteq> a0) \<and>
     \<not> (b0 < a0 \<and> b1 \<ge> a1) \<and> \<not> (b0 > a0 \<and> b1 \<le> a1))"
  by auto

lemma compatible_2D_sym: "compatible_2D a b = compatible_2D b a"
proof -
  obtain a0 a1 a2 a3 where a: "a = (a0, a1, a2, a3)" by (cases a rule: prod_cases4)
  obtain b0 b1 b2 b3 where b: "b = (b0, b1, b2, b3)" by (cases b rule: prod_cases4)
  show ?thesis
    unfolding a b compatible_2D_iff
    using axis_sym[of a0 b0 a1 b1] axis_sym[of a2 b2 a3 b3] by blast
qed


lemma build_violations_iff:
  "(i, j) \<in> set (build_violations vs) \<longleftrightarrow>
     i < j \<and> j < length vs \<and> \<not> compatible_2D (vs ! i) (vs ! j)"
proof
  assume "(i, j) \<in> set (build_violations vs)"
  then show "i < j \<and> j < length vs \<and> \<not> compatible_2D (vs ! i) (vs ! j)"
    by (auto simp: build_violations_def)
next
  assume a: "i < j \<and> j < length vs \<and> \<not> compatible_2D (vs ! i) (vs ! j)"
  then have "i \<in> {0..<length vs}" by auto
  moreover from a have "(i, j) \<in> Pair i ` {xa. Suc i \<le> xa \<and> xa < length vs \<and> \<not> compatible_2D (vs ! i) (vs ! xa)}"
    by auto
  ultimately show "(i, j) \<in> set (build_violations vs)"
    unfolding build_violations_def by auto
qed

lemma node_neighbors_iff:
  "j \<in> set (node_neighbors edges i) \<longleftrightarrow> (i, j) \<in> set edges \<or> (j, i) \<in> set edges"
  by (induction edges) (auto simp: node_neighbors_def)

lemma length_mark_conflicts [simp]: "length (mark_conflicts js c) = length c"
  unfolding mark_conflicts_def by (induction js arbitrary: c) auto

lemma mark_conflicts_nth:
  "k < length c \<Longrightarrow> mark_conflicts js c ! k \<longleftrightarrow> c ! k \<or> k \<in> set js"
  unfolding mark_conflicts_def
proof (induction js arbitrary: c)
  case Nil
  then show ?case by simp
next
  case (Cons a js)
  have "fold (\<lambda>j c. c[j := True]) js (c[a := True]) ! k \<longleftrightarrow> c[a := True] ! k \<or> k \<in> set js"
    using Cons.IH[of "c[a := True]"] Cons.prems by simp
  moreover have "c[a := True] ! k \<longleftrightarrow> c ! k \<or> k = a"
    using Cons.prems by (cases "k = a") (simp_all)
  ultimately show ?case by auto
qed

lemma mis_inv_step:
  assumes inv: "mis_inv edges n k st" and kn: "k < n"
  shows "mis_inv edges n (Suc k) (mis_sort_step edges k st)"
proof (cases "fst st ! k")
  case True
  then have "mis_sort_step edges k st = st" by (simp add: mis_sort_step_def)
  moreover from inv have "mis_inv edges n (Suc k) st"
    unfolding mis_inv_def by (auto simp: less_Suc_eq)
  ultimately show ?thesis by simp
next
  case False
  obtain c res where st: "st = (c, res)" by (cases st)
  let ?nb = "node_neighbors edges"
  from inv st have len: "length c = n" and sub: "set res \<subseteq> {..<k}"
    and marked: "\<And>i j. i \<in> set res \<Longrightarrow> j < n \<Longrightarrow> j \<in> set (?nb i) \<Longrightarrow> c ! j"
    and indep: "\<And>i j. i \<in> set res \<Longrightarrow> j \<in> set res \<Longrightarrow> i \<noteq> j \<Longrightarrow> j \<notin> set (?nb i)"
    unfolding mis_inv_def by auto
  have nb_sym: "\<And>a b. a \<in> set (?nb b) \<Longrightarrow> b \<in> set (?nb a)"
    by (auto simp: node_neighbors_iff)
  from False st have notk: "\<not> c ! k" by simp
  have step: "mis_sort_step edges k st = (mark_conflicts (?nb k) c, res @ [k])"
    using False st by (simp add: mis_sort_step_def)
  have k_free: "\<And>i. i \<in> set res \<Longrightarrow> k \<notin> set (?nb i)"
    using marked kn notk by blast
  have k_free': "\<And>i. i \<in> set res \<Longrightarrow> i \<notin> set (?nb k)"
    using k_free nb_sym by blast
  have k_notin: "k \<notin> set res" using sub by auto
  have 1: "length (mark_conflicts (?nb k) c) = n" using len by simp
  have 2: "set (res @ [k]) \<subseteq> {..<Suc k}" using sub by (auto simp: less_Suc_eq)
  have 3: "\<forall>i \<in> set (res @ [k]). \<forall>j < n. j \<in> set (?nb i) \<longrightarrow> mark_conflicts (?nb k) c ! j"
  proof (intro ballI allI impI)
    fix i j assume i: "i \<in> set (res @ [k])" and j: "j < n" and nb: "j \<in> set (?nb i)"
    have jl: "j < length c" using j len by simp
    show "mark_conflicts (?nb k) c ! j"
    proof (cases "i = k")
      case True
      then show ?thesis using nb jl by (simp add: mark_conflicts_nth)
    next
      case False
      with i have "i \<in> set res" by simp
      then have "c ! j" using marked j nb by blast
      then show ?thesis using jl by (simp add: mark_conflicts_nth)
    qed
  qed
  have 4: "\<forall>i \<in> set (res @ [k]). \<forall>j \<in> set (res @ [k]). i \<noteq> j \<longrightarrow> j \<notin> set (?nb i)"
  proof (intro ballI impI)
    fix i j assume i: "i \<in> set (res @ [k])" and j: "j \<in> set (res @ [k])" and ne: "i \<noteq> j"
    show "j \<notin> set (?nb i)"
    proof (cases "i = k")
      case True
      with ne j have "j \<in> set res" by auto
      then show ?thesis using k_free' True by blast
    next
      case ik: False
      with i have ir: "i \<in> set res" by simp
      show ?thesis
      proof (cases "j = k")
        case True
        then show ?thesis using k_free ir by blast
      next
        case False
        with j have "j \<in> set res" by simp
        then show ?thesis using indep ir ne by blast
      qed
    qed
  qed
  show ?thesis unfolding step mis_inv_def fst_conv snd_conv using 1 2 3 4 by blast
qed

lemma mis_inv_fold:
  "k \<le> n \<Longrightarrow> mis_inv edges n k (fold (mis_sort_step edges) [0 ..< k] (replicate n False, []))"
proof (induction k)
  case 0
  then show ?case by (simp add: mis_inv_def)
next
  case (Suc k)
  then show ?case using mis_inv_step[of edges n k] by simp
qed

lemma mis_sort_independent:
  assumes "maximalis_solve_sort n edges = Inr S"
  shows "set S \<subseteq> {..<n} \<and>
         (\<forall>i \<in> set S. \<forall>j \<in> set S. i \<noteq> j \<longrightarrow> (i, j) \<notin> set edges \<and> (j, i) \<notin> set edges)"
proof -
  from assms have S: "S = snd (fold (mis_sort_step edges) [0 ..< n] (replicate n False, []))"
    by (auto simp: maximalis_solve_sort_def split: if_splits)
  have "mis_inv edges n n (fold (mis_sort_step edges) [0 ..< n] (replicate n False, []))"
    by (rule mis_inv_fold) simp
  then show ?thesis
    unfolding mis_inv_def S[symmetric] by (auto simp: node_neighbors_iff)
qed

lemma mis_sort_violations_returns:
  "\<exists>S. maximalis_solve_sort (length vs) (build_violations vs) = Inr S"
proof -
  have "\<not> list_ex (\<lambda>edge. fst edge \<ge> length vs \<or> snd edge \<ge> length vs) (build_violations vs)"
    by (auto simp: list_ex_iff build_violations_iff)
  then show ?thesis by (simp add: maximalis_solve_sort_def)
qed

lemma candidates_incompatible:
  assumes "qubit_mapping ! fst edge \<noteq> qubit_mapping ! snd edge"
  shows "\<not> compatible_2D (candidate_fst qubit_mapping edge) (candidate_snd qubit_mapping edge)"
proof -
  obtain r0 c0 where p0: "qubit_mapping ! fst edge = (r0, c0)" by (cases "qubit_mapping ! fst edge")
  obtain r1 c1 where p1: "qubit_mapping ! snd edge = (r1, c1)" by (cases "qubit_mapping ! snd edge")
  from assms p0 p1 have "r0 \<noteq> r1 \<or> c0 \<noteq> c1" by simp
  then show ?thesis
    unfolding candidate_fst_def candidate_snd_def p0 p1 prod.case compatible_2D_iff
    by linarith
qed

lemma fill_vectors_spec:
  assumes "fill_vectors w m es i vs = Inr r"
  shows "length r = length vs \<and> (\<forall>k < i. r ! k = vs ! k) \<and>
         (\<forall>g < length es. i + 2 * g + 1 < length vs \<longrightarrow>
            r ! (i + 2 * g) = candidate_fst m (es ! g) \<and>
            r ! (i + 2 * g + 1) = candidate_snd m (es ! g))"
  using assms
proof (induction es arbitrary: i vs)
  case Nil
  then show ?case by simp
next
  case (Cons e es)
  show ?case
  proof (cases "w \<and> \<not> (i + 1 < length vs)")
    case True
    with Cons.prems have "fill_vectors w m es i vs = Inr r" by simp
    from Cons.IH[OF this] True show ?thesis by auto
  next
    case False
    let ?vs' = "vs[i := candidate_fst m e, i + 1 := candidate_snd m e]"
    from False Cons.prems have lt: "i + 1 < length vs" and
      rec: "fill_vectors w m es (i + 2) ?vs' = Inr r"
      by (auto split: if_splits)
    from Cons.IH[OF rec] have len: "length r = length vs"
      and keep: "\<forall>k < i + 2. r ! k = ?vs' ! k"
      and rest: "\<forall>g < length es. i + 2 + 2 * g + 1 < length vs \<longrightarrow>
            r ! (i + 2 + 2 * g) = candidate_fst m (es ! g) \<and>
            r ! (i + 2 + 2 * g + 1) = candidate_snd m (es ! g)"
      by simp_all
    have a: "\<forall>k < i. r ! k = vs ! k" using keep by simp
    have b: "r ! i = candidate_fst m e" "r ! (i + 1) = candidate_snd m e"
      using keep lt by simp_all
    have c: "\<forall>g < length (e # es). i + 2 * g + 1 < length vs \<longrightarrow>
            r ! (i + 2 * g) = candidate_fst m ((e # es) ! g) \<and>
            r ! (i + 2 * g + 1) = candidate_snd m ((e # es) ! g)"
    proof (intro allI impI)
      fix g assume g: "g < length (e # es)" and h: "i + 2 * g + 1 < length vs"
      show "r ! (i + 2 * g) = candidate_fst m ((e # es) ! g) \<and>
            r ! (i + 2 * g + 1) = candidate_snd m ((e # es) ! g)"
      proof (cases g)
        case 0
        then show ?thesis using b by simp
      next
        case (Suc g')
        with g h rest have "r ! (i + 2 + 2 * g') = candidate_fst m (es ! g') \<and>
            r ! (i + 2 + 2 * g' + 1) = candidate_snd m (es ! g')" by simp
        then show ?thesis using Suc by (simp add: add.commute add.left_commute)
      qed
    qed
    from len a c show ?thesis by blast
  qed
qed

lemma make_vectors_spec:
  assumes "make_vectors w m remain = Inr vs"
  shows "length vs \<le> 2 * length remain \<and>
         (\<forall>g. 2 * g + 1 < length vs \<longrightarrow>
            vs ! (2 * g) = candidate_fst m (remain ! g) \<and>
            vs ! (2 * g + 1) = candidate_snd m (remain ! g))"
proof -
  let ?n = "(if w then min vector_threshold (2 * length remain) else 2 * length remain)"
  from assms have f: "fill_vectors w m remain 0 (replicate ?n (0, 0, 0, 0)) = Inr vs"
    by (simp add: make_vectors_def Let_def)
  from fill_vectors_spec[OF f] have len: "length vs = ?n"
    and sp: "\<forall>g < length remain. 2 * g + 1 < ?n \<longrightarrow>
            vs ! (2 * g) = candidate_fst m (remain ! g) \<and>
            vs ! (2 * g + 1) = candidate_snd m (remain ! g)" by simp_all
  have le: "?n \<le> 2 * length remain" by simp
  show ?thesis
  proof (intro conjI allI impI)
    show "length vs \<le> 2 * length remain" using len le by simp
  next
    fix g assume "2 * g + 1 < length vs"
    then have "2 * g + 1 < ?n" "g < length remain" using len le by auto
    then show "vs ! (2 * g) = candidate_fst m (remain ! g)" using sp by blast
  next
    fix g assume "2 * g + 1 < length vs"
    then have "2 * g + 1 < ?n" "g < length remain" using len le by auto
    then show "vs ! (2 * g + 1) = candidate_snd m (remain ! g)" using sp by blast
  qed
qed


text \<open>
  Claim C10.  \<open>compatible_2D\<close> is symmetric in its two motions; so the conflict
  edges, which \<open>route_qubit_mis\<close> collects only for index pairs \<open>i < j\<close>, describe
  the same relation when the two motions are tested in the other order.
\<close>

theorem compatible_2D_symmetric:
  "compatible_2D a b = compatible_2D b a \<and>
   ((i, j) \<in> set (build_violations vectors) \<longleftrightarrow>
      i < j \<and> j < length vectors \<and> \<not> compatible_2D (vectors ! j) (vectors ! i))"
  using compatible_2D_sym[of a b] compatible_2D_sym[of "vectors ! i" "vectors ! j"]
    build_violations_iff[of i j vectors] by simp

lemma greedy_selection_props:
  assumes "make_vectors use_window qubit_mapping remain_graph = Inr vectors"
  shows "\<exists>execute_gates.
           maximalis_solve_sort (length vectors) (build_violations vectors) = Inr execute_gates \<and>
           (\<forall>i \<in> set execute_gates. \<forall>j \<in> set execute_gates. i \<noteq> j \<longrightarrow>
              (i, j) \<notin> set (build_violations vectors) \<and>
              compatible_2D (vectors ! i) (vectors ! j)) \<and>
           (\<forall>g < length remain_graph.
              qubit_mapping ! fst (remain_graph ! g) \<noteq> qubit_mapping ! snd (remain_graph ! g) \<longrightarrow>
              \<not> compatible_2D (candidate_fst qubit_mapping (remain_graph ! g))
                               (candidate_snd qubit_mapping (remain_graph ! g)) \<and>
              \<not> (2 * g \<in> set execute_gates \<and> 2 * g + 1 \<in> set execute_gates))"
proof -
  obtain S where S: "maximalis_solve_sort (length vectors) (build_violations vectors) = Inr S"
    using mis_sort_violations_returns by blast
  from mis_sort_independent[OF S] have rng: "set S \<subseteq> {..<length vectors}"
    and ind: "\<forall>i \<in> set S. \<forall>j \<in> set S. i \<noteq> j \<longrightarrow>
                (i, j) \<notin> set (build_violations vectors) \<and> (j, i) \<notin> set (build_violations vectors)"
    by blast+
  have pw: "\<forall>i \<in> set S. \<forall>j \<in> set S. i \<noteq> j \<longrightarrow>
              (i, j) \<notin> set (build_violations vectors) \<and> compatible_2D (vectors ! i) (vectors ! j)"
  proof (intro ballI impI)
    fix i j assume i: "i \<in> set S" and j: "j \<in> set S" and ne: "i \<noteq> j"
    from rng i j have il: "i < length vectors" and jl: "j < length vectors" by auto
    from ind i j ne have n1: "(i, j) \<notin> set (build_violations vectors)"
      and n2: "(j, i) \<notin> set (build_violations vectors)" by blast+
    show "(i, j) \<notin> set (build_violations vectors) \<and> compatible_2D (vectors ! i) (vectors ! j)"
    proof (cases "i < j")
      case True
      with n1 jl show ?thesis by (simp add: build_violations_iff)
    next
      case False
      with ne have "j < i" by simp
      with n2 il have "compatible_2D (vectors ! j) (vectors ! i)"
        by (simp add: build_violations_iff)
      with n1 show ?thesis by (simp add: compatible_2D_sym)
    qed
  qed
  have cand: "\<forall>g < length remain_graph.
              qubit_mapping ! fst (remain_graph ! g) \<noteq> qubit_mapping ! snd (remain_graph ! g) \<longrightarrow>
              \<not> compatible_2D (candidate_fst qubit_mapping (remain_graph ! g))
                               (candidate_snd qubit_mapping (remain_graph ! g)) \<and>
              \<not> (2 * g \<in> set S \<and> 2 * g + 1 \<in> set S)"
  proof (intro allI impI)
    fix g assume g: "g < length remain_graph"
      and d: "qubit_mapping ! fst (remain_graph ! g) \<noteq> qubit_mapping ! snd (remain_graph ! g)"
    have inc: "\<not> compatible_2D (candidate_fst qubit_mapping (remain_graph ! g))
                               (candidate_snd qubit_mapping (remain_graph ! g))"
      by (rule candidates_incompatible[OF d])
    have "\<not> (2 * g \<in> set S \<and> 2 * g + 1 \<in> set S)"
    proof
      assume both: "2 * g \<in> set S \<and> 2 * g + 1 \<in> set S"
      with rng have lt: "2 * g + 1 < length vectors" by auto
      from make_vectors_spec[OF assms] lt
      have "vectors ! (2 * g) = candidate_fst qubit_mapping (remain_graph ! g)"
           "vectors ! (2 * g + 1) = candidate_snd qubit_mapping (remain_graph ! g)" by blast+
      moreover from pw both have "compatible_2D (vectors ! (2 * g)) (vectors ! (2 * g + 1))"
        by auto
      ultimately show False using inc by simp
    qed
    with inc show "\<not> compatible_2D (candidate_fst qubit_mapping (remain_graph ! g))
                               (candidate_snd qubit_mapping (remain_graph ! g)) \<and>
              \<not> (2 * g \<in> set S \<and> 2 * g + 1 \<in> set S)" by simp
  qed
  from S pw cand show ?thesis by blast
qed




section \<open>The layer loop of the router\<close>

lemma mis_sort_step_grows: "set (snd st) \<subseteq> set (snd (mis_sort_step edges i st))"
  by (auto simp: mis_sort_step_def)

lemma mis_sort_fold_grows: "set (snd st) \<subseteq> set (snd (fold (mis_sort_step edges) is st))"
proof (induction "is" arbitrary: st)
  case Nil
  then show ?case by simp
next
  case (Cons i "is")
  have "set (snd st) \<subseteq> set (snd (mis_sort_step edges i st))" by (rule mis_sort_step_grows)
  also have "\<dots> \<subseteq> set (snd (fold (mis_sort_step edges) is (mis_sort_step edges i st)))"
    by (rule Cons.IH)
  finally show ?case by simp
qed

lemma mis_sort_first_selected:
  assumes "maximalis_solve_sort n edges = Inr S" "0 < n"
  shows "0 \<in> set S"
proof -
  from assms(1) have S: "S = snd (fold (mis_sort_step edges) [0 ..< n] (replicate n False, []))"
    by (auto simp: maximalis_solve_sort_def split: if_splits)
  from assms(2) have up: "[0 ..< n] = 0 # [1 ..< n]" by (simp add: upt_conv_Cons)
  have "0 \<in> set (snd (mis_sort_step edges 0 (replicate n False, [])))"
    using assms(2) by (simp add: mis_sort_step_def)
  then have "0 \<in> set (snd (fold (mis_sort_step edges) [1 ..< n]
                (mis_sort_step edges 0 (replicate n False, []))))"
    using mis_sort_fold_grows by blast
  then show ?thesis unfolding S up by simp
qed

lemma mis_sort_step_distinct:
  assumes "distinct (snd st)" "set (snd st) \<subseteq> {..<k}"
  shows "distinct (snd (mis_sort_step edges k st)) \<and>
         set (snd (mis_sort_step edges k st)) \<subseteq> {..<Suc k}"
proof -
  from assms(2) have "k \<notin> set (snd st)" by auto
  with assms show ?thesis by (auto simp: mis_sort_step_def less_Suc_eq)
qed

lemma mis_sort_fold_distinct:
  "distinct (snd (fold (mis_sort_step edges) [0 ..< k] (c0, []))) \<and>
   set (snd (fold (mis_sort_step edges) [0 ..< k] (c0, []))) \<subseteq> {..<k}"
proof (induction k)
  case 0
  then show ?case by simp
next
  case (Suc k)
  define st where "st = fold (mis_sort_step edges) [0 ..< k] (c0, [])"
  from Suc have "distinct (snd st)" "set (snd st) \<subseteq> {..<k}" unfolding st_def by simp_all
  from mis_sort_step_distinct[OF this] show ?case unfolding st_def by simp
qed

lemma mis_sort_distinct:
  assumes "maximalis_solve_sort n edges = Inr S"
  shows "distinct S"
proof -
  from assms have S: "S = snd (fold (mis_sort_step edges) [0 ..< n] (replicate n False, []))"
    by (auto simp: maximalis_solve_sort_def split: if_splits)
  show ?thesis unfolding S using mis_sort_fold_distinct by blast
qed

lemma fill_vectors_returns:
  assumes "\<forall>e \<in> set es. fst e < length m \<and> snd e < length m"
    and "w \<or> i + 2 * length es \<le> length vs"
  shows "\<exists>r. fill_vectors w m es i vs = Inr r"
  using assms
proof (induction es arbitrary: i vs)
  case Nil
  then show ?case by simp
next
  case (Cons e es)
  show ?case
  proof (cases "w \<and> \<not> (i + 1 < length vs)")
    case True
    with Cons show ?thesis by simp
  next
    case False
    with Cons.prems have lt: "i + 1 < length vs" by auto
    let ?vs' = "vs[i := candidate_fst m e, i + 1 := candidate_snd m e]"
    have "\<exists>r. fill_vectors w m es (i + 2) ?vs' = Inr r"
      by (rule Cons.IH) (use Cons.prems in auto)
    with lt False Cons.prems show ?thesis by auto
  qed
qed

lemma make_vectors_returns:
  assumes "\<forall>e \<in> set remain. fst e < length m \<and> snd e < length m"
  shows "\<exists>vs. make_vectors w m remain = Inr vs \<and>
              (remain \<noteq> [] \<longrightarrow> 0 < length vs) \<and> length vs \<le> 2 * length remain"
proof -
  let ?n = "(if w then min vector_threshold (2 * length remain) else 2 * length remain)"
  have "\<exists>r. fill_vectors w m remain 0 (replicate ?n (0, 0, 0, 0)) = Inr r"
    by (rule fill_vectors_returns[OF assms]) simp
  then obtain r where r: "fill_vectors w m remain 0 (replicate ?n (0, 0, 0, 0)) = Inr r" ..
  from fill_vectors_spec[OF r] have len: "length r = ?n" by simp
  have mv: "make_vectors w m remain = Inr r" using r by (simp add: make_vectors_def Let_def)
  have "remain \<noteq> [] \<longrightarrow> 0 < ?n" by (cases remain) (simp_all add: vector_threshold_def)
  moreover have "?n \<le> 2 * length remain" by simp
  ultimately show ?thesis using mv len by auto
qed

lemma executed_indices_distinct:
  fixes S :: "nat list"
  assumes "distinct S" "\<forall>g. \<not> (2 * g \<in> set S \<and> 2 * g + 1 \<in> set S)"
  shows "distinct (map (\<lambda>i. i div 2) S)"
proof -
  have "inj_on (\<lambda>i. i div 2) (set S)"
  proof (rule inj_onI)
    fix i j assume i: "i \<in> set S" and j: "j \<in> set S" and e: "i div 2 = j div 2"
    show "i = j"
    proof (rule ccontr)
      assume ne: "i \<noteq> j"
      let ?g = "i div 2"
      from e ne have "(i = 2 * ?g \<and> j = 2 * ?g + 1) \<or> (j = 2 * ?g \<and> i = 2 * ?g + 1)"
        by presburger
      with i j assms(2) show False by metis
    qed
  qed
  with assms(1) show ?thesis by (simp add: distinct_map)
qed

lemma enumerate_as_map: "enumerate 0 xs = map (\<lambda>i. (i, xs ! i)) [0 ..< length xs]"
  by (rule nth_equalityI) (simp_all add: nth_enumerate_eq)

lemma remaining_gates_eq:
  "remaining_gates S xs =
     map (\<lambda>g. xs ! g) (filter (\<lambda>g. g \<notin> set (map (\<lambda>i. i div 2) S)) [0 ..< length xs])"
proof -
  have p: "\<And>g. (2 * g \<notin> set S \<and> 2 * g + 1 \<notin> set S) \<longleftrightarrow> g \<notin> set (map (\<lambda>i. i div 2) S)"
  proof -
    fix g
    have "g \<in> (\<lambda>i. i div 2) ` set S \<longleftrightarrow> 2 * g \<in> set S \<or> 2 * g + 1 \<in> set S"
    proof
      assume "g \<in> (\<lambda>i. i div 2) ` set S"
      then obtain i where i: "i \<in> set S" "g = i div 2" by auto
      then have "i = 2 * g \<or> i = 2 * g + 1" by presburger
      with i show "2 * g \<in> set S \<or> 2 * g + 1 \<in> set S" by auto
    next
      assume "2 * g \<in> set S \<or> 2 * g + 1 \<in> set S"
      then show "g \<in> (\<lambda>i. i div 2) ` set S"
      proof
        assume "2 * g \<in> set S"
        then have "(2 * g) div 2 \<in> (\<lambda>i. i div 2) ` set S" by (rule imageI)
        then show ?thesis by simp
      next
        assume "2 * g + 1 \<in> set S"
        then have "(2 * g + 1) div 2 \<in> (\<lambda>i. i div 2) ` set S" by (rule imageI)
        then show ?thesis by simp
      qed
    qed
    then show "(2 * g \<notin> set S \<and> 2 * g + 1 \<notin> set S) \<longleftrightarrow> g \<notin> set (map (\<lambda>i. i div 2) S)"
      by auto
  qed
  have f: "filter (\<lambda>g. 2 * g \<notin> set S \<and> 2 * g + 1 \<notin> set S) [0 ..< length xs] =
           filter (\<lambda>g. g \<notin> set (map (\<lambda>i. i div 2) S)) [0 ..< length xs]"
    by (rule filter_cong) (use p in simp_all)
  have "remaining_gates S xs =
        map (\<lambda>g. xs ! g) (filter (\<lambda>g. 2 * g \<notin> set S \<and> 2 * g + 1 \<notin> set S) [0 ..< length xs])"
    unfolding remaining_gates_def enumerate_as_map by (simp add: filter_map comp_def)
  then show ?thesis by (simp only: f)
qed

lemma mset_selected_remaining:
  assumes d: "distinct E" and r: "set E \<subseteq> {..<length xs}"
  shows "mset (map (\<lambda>g. xs ! g) E) +
         mset (map (\<lambda>g. xs ! g) (filter (\<lambda>g. g \<notin> set E) [0 ..< length xs])) = mset xs"
proof -
  let ?n = "length xs"
  have "set (filter (\<lambda>g. g \<in> set E) [0 ..< ?n]) = set E" using r by auto
  moreover have "distinct (filter (\<lambda>g. g \<in> set E) [0 ..< ?n])" by simp
  ultimately have e: "mset (filter (\<lambda>g. g \<in> set E) [0 ..< ?n]) = mset E"
    using d set_eq_iff_mset_eq_distinct[of "filter (\<lambda>g. g \<in> set E) [0 ..< ?n]" E] by blast
  have "mset (map (\<lambda>g. xs ! g) E) = image_mset (\<lambda>g. xs ! g) (mset E)" by simp
  also have "\<dots> = image_mset (\<lambda>g. xs ! g) (mset (filter (\<lambda>g. g \<in> set E) [0 ..< ?n]))"
    by (simp only: e)
  finally have a: "mset (map (\<lambda>g. xs ! g) E) =
      image_mset (\<lambda>g. xs ! g) (filter_mset (\<lambda>g. g \<in> set E) (mset [0 ..< ?n]))" by simp
  have b: "mset (map (\<lambda>g. xs ! g) (filter (\<lambda>g. g \<notin> set E) [0 ..< ?n])) =
      image_mset (\<lambda>g. xs ! g) (filter_mset (\<lambda>g. g \<notin> set E) (mset [0 ..< ?n]))" by simp
  have "image_mset (\<lambda>g. xs ! g) (filter_mset (\<lambda>g. g \<in> set E) (mset [0 ..< ?n])) +
        image_mset (\<lambda>g. xs ! g) (filter_mset (\<lambda>g. g \<notin> set E) (mset [0 ..< ?n]))
        = image_mset (\<lambda>g. xs ! g) (mset [0 ..< ?n])"
    by (metis image_mset_union multiset_partition)
  also have "\<dots> = mset (map (\<lambda>g. xs ! g) [0 ..< ?n])" by simp
  also have "\<dots> = mset xs" by (simp only: map_nth)
  finally show ?thesis unfolding a b .
qed

lemma gate_dict_entries_ok:
  assumes "\<forall>g \<in> set tmp. g \<in> set layer_gates"
  shows "\<exists>ds. gate_dict_entries layer_gates tmp = Inr ds \<and> map gate_of_entry ds = tmp"
  using assms
proof (induction tmp)
  case Nil
  then show ?case by simp
next
  case (Cons g tmp)
  then obtain ds where ds: "gate_dict_entries layer_gates tmp = Inr ds"
    "map gate_of_entry ds = tmp" by auto
  from Cons.prems have "g \<in> set layer_gates" by simp
  then have "gate_dict_entry layer_gates g =
      Inr \<lparr>ge_id = index_of layer_gates g, ge_q0 = fst g, ge_q1 = snd g\<rparr>"
    by (simp add: gate_dict_entry_def)
  moreover have "gate_of_entry \<lparr>ge_id = index_of layer_gates g, ge_q0 = fst g, ge_q1 = snd g\<rparr> = g"
    by (simp add: gate_of_entry_def)
  ultimately show ?case using ds by simp
qed

lemma move_fold_length:
  "length (fold (\<lambda>i m. if i \<in> A then m[i := m ! f i] else m) is m) = length m"
  by (induction "is" arbitrary: m) auto

lemma move_fold_keeps:
  assumes "q \<notin> A"
  shows "fold (\<lambda>i m. if i \<in> A then m[i := m ! f i] else m) is m ! q = m ! q"
proof (induction "is" arbitrary: m)
  case Nil
  then show ?case by simp
next
  case (Cons a "is")
  show ?case
  proof (cases "a \<in> A")
    case True
    with assms have "a \<noteq> q" by auto
    then have "m[a := m ! f a] ! q = m ! q" by simp
    with Cons[of "m[a := m ! f a]"] True show ?thesis by simp
  next
    case False
    with Cons[of m] show ?thesis by simp
  qed
qed

lemma move_qubits_keeps:
  "length (move_qubits n_q aod t m) = length m \<and>
   (q \<notin> set aod \<longrightarrow> move_qubits n_q aod t m ! q = m ! q)"
proof -
  have a: "length (move_qubits n_q aod t m) = length m"
    unfolding move_qubits_def by (rule move_fold_length[of "set aod" "\<lambda>i. the (t i)"])
  have b: "q \<notin> set aod \<Longrightarrow> move_qubits n_q aod t m ! q = m ! q"
    unfolding move_qubits_def by (rule move_fold_keeps[of q "set aod" "\<lambda>i. the (t i)"])
  from a b show ?thesis by simp
qed

lemma target_fold:
  "(\<exists>i \<in> set S. mover rem i = q \<and>
      fold (\<lambda>i t. t(mover rem i \<mapsto> partner rem i)) S t0 q = Some (partner rem i)) \<or>
   (q \<notin> mover rem ` set S \<and>
      fold (\<lambda>i t. t(mover rem i \<mapsto> partner rem i)) S t0 q = t0 q)"
proof (induction S rule: rev_induct)
  case Nil
  then show ?case by simp
next
  case (snoc a S)
  let ?F = "fold (\<lambda>i t. t(mover rem i \<mapsto> partner rem i))"
  have step: "?F (S @ [a]) t0 = (?F S t0)(mover rem a \<mapsto> partner rem a)" by simp
  show ?case
  proof (cases "mover rem a = q")
    case True
    then have "?F (S @ [a]) t0 q = Some (partner rem a)" unfolding step by simp
    with True show ?thesis by auto
  next
    case False
    then have eq: "?F (S @ [a]) t0 q = ?F S t0 q" unfolding step by simp
    from snoc show ?thesis
    proof
      assume "\<exists>i \<in> set S. mover rem i = q \<and> ?F S t0 q = Some (partner rem i)"
      then show ?thesis unfolding eq by auto
    next
      assume "q \<notin> mover rem ` set S \<and> ?F S t0 q = t0 q"
      with False show ?thesis unfolding eq by auto
    qed
  qed
qed

lemma target_qubits_of_mover:
  assumes "q \<in> mover rem ` set S"
  shows "\<exists>i \<in> set S. mover rem i = q \<and> target_qubits_of rem S q = Some (partner rem i)"
  using target_fold[of S rem q Map.empty] assms unfolding target_qubits_of_def by blast

lemma append_layer_props:
  "append_layer m n aod ls \<noteq> [] \<and> length (append_layer m n aod ls) = length (butlast ls) + 2 \<and>
   (ls \<noteq> [] \<longrightarrow> (\<forall>l \<in> set ls. l_gates l = []) \<longrightarrow> (\<forall>l \<in> set (append_layer m n aod ls). l_gates l = []))"
proof -
  have "ls \<noteq> [] \<Longrightarrow> \<forall>l \<in> set ls. l_gates l = [] \<Longrightarrow>
        \<forall>l \<in> set (append_layer m n aod ls). l_gates l = []"
  proof
    fix l assume ne: "ls \<noteq> []" and a: "\<forall>l \<in> set ls. l_gates l = []"
      and l: "l \<in> set (append_layer m n aod ls)"
    from l have "l \<in> set (butlast ls) \<or> l = mark_aod aod (last ls) \<or> l = mk_layer m n"
      by (auto simp: append_layer_def)
    moreover have "l_gates (mark_aod aod (last ls)) = []"
      using a ne by (simp add: mark_aod_def)
    moreover have "l_gates (mk_layer m n) = []" by (simp add: mk_layer_def)
    moreover have "\<And>l. l \<in> set (butlast ls) \<Longrightarrow> l_gates l = []"
      using a by (meson in_set_butlastD)
    ultimately show "l_gates l = []" by auto
  qed
  then show ?thesis by (simp add: append_layer_def)
qed

lemma distinct_map_nth:
  assumes "distinct xs" "distinct is" "set is \<subseteq> {..<length xs}"
  shows "distinct (map (\<lambda>g. xs ! g) is)"
proof -
  have "inj_on (\<lambda>g. xs ! g) (set is)"
  proof (rule inj_onI)
    fix a b assume a: "a \<in> set is" and b: "b \<in> set is" and e: "xs ! a = xs ! b"
    from a b assms(3) have "a < length xs" "b < length xs" by auto
    with e assms(1) show "a = b" by (simp add: nth_eq_iff_index_eq)
  qed
  with assms(2) show ?thesis by (simp add: distinct_map)
qed

lemma mover_partner_cases:
  "(mover rem i = fst (rem ! (i div 2)) \<and> partner rem i = snd (rem ! (i div 2))) \<or>
   (mover rem i = snd (rem ! (i div 2)) \<and> partner rem i = fst (rem ! (i div 2)))"
  by (simp add: mover_def partner_def)

lemma route_pass_inv:
  assumes wf: "layer_wf m0 L" and inv: "route_inv m0 L st" and ne: "rs_remain st \<noteq> []"
  shows "\<exists>st'. route_pass ext Maximalis_sorted w n_q L st = Inr st' \<and> route_inv m0 L st' \<and>
               length (rs_remain st') < length (rs_remain st) \<and>
               length (rs_layers st') = length (rs_layers st) + 1"
proof -
  define rem where "rem = rs_remain st"
  define m where "m = rs_mapping st"
  from inv have len: "length m = length m0" and drem: "distinct rem"
    and sub: "set rem \<subseteq> set L"
    and same: "\<And>g. g \<in> set rem \<Longrightarrow> m ! fst g = m0 ! fst g \<and> m ! snd g = m0 ! snd g"
    and ms: "mset (map gate_of_entry (rs_gates_dict st)) + mset rem = mset L"
    and lne: "rs_layers st \<noteq> []" and lg: "\<forall>l \<in> set (rs_layers st). l_gates l = []"
    unfolding route_inv_def rem_def m_def by auto
  from wf have wfq: "\<And>g. g \<in> set L \<Longrightarrow> fst g \<noteq> snd g \<and> fst g < length m0 \<and>
        snd g < length m0 \<and> m0 ! fst g \<noteq> m0 ! snd g"
    and wfd: "\<And>g h. g \<in> set L \<Longrightarrow> h \<in> set L \<Longrightarrow> g \<noteq> h \<Longrightarrow>
        fst g \<noteq> fst h \<and> fst g \<noteq> snd h \<and> snd g \<noteq> fst h \<and> snd g \<noteq> snd h"
    unfolding layer_wf_def by blast+
  have inr: "\<forall>e \<in> set rem. fst e < length m \<and> snd e < length m"
    using sub wfq len by auto
  have sites: "\<And>g. g \<in> set rem \<Longrightarrow> m ! fst g \<noteq> m ! snd g"
    using sub wfq same by (metis subsetD)
  from make_vectors_returns[OF inr, of w] ne obtain vs where
    mv: "make_vectors w m rem = Inr vs" and vpos: "0 < length vs"
    and vle: "length vs \<le> 2 * length rem" unfolding rem_def by auto
  from greedy_selection_props[OF mv] obtain S where
    S: "maximalis_solve_sort (length vs) (build_violations vs) = Inr S"
    and nopair0: "\<forall>g < length rem. m ! fst (rem ! g) \<noteq> m ! snd (rem ! g) \<longrightarrow>
              \<not> compatible_2D (candidate_fst m (rem ! g)) (candidate_snd m (rem ! g)) \<and>
              \<not> (2 * g \<in> set S \<and> 2 * g + 1 \<in> set S)"
    by blast
  from mis_sort_independent[OF S] have Srng: "set S \<subseteq> {..<length vs}" by blast
  have Sd: "distinct S" by (rule mis_sort_distinct[OF S])
  have S0: "0 \<in> set S" by (rule mis_sort_first_selected[OF S vpos])
  have idx: "\<And>i. i \<in> set S \<Longrightarrow> i div 2 < length rem"
  proof -
    fix i assume "i \<in> set S"
    with Srng vle have "i < 2 * length rem" by auto
    then show "i div 2 < length rem" by simp
  qed
  have nopair: "\<forall>g. \<not> (2 * g \<in> set S \<and> 2 * g + 1 \<in> set S)"
  proof (intro allI notI)
    fix g assume b: "2 * g \<in> set S \<and> 2 * g + 1 \<in> set S"
    then have "(2 * g) div 2 < length rem" using idx by blast
    then have g: "g < length rem" by simp
    then have "rem ! g \<in> set rem" by simp
    from sites[OF this] nopair0 g b show False by blast
  qed
  define E where "E = map (\<lambda>i. i div 2) S"
  have Ed: "distinct E" unfolding E_def by (rule executed_indices_distinct[OF Sd nopair])
  have Er: "set E \<subseteq> {..<length rem}" unfolding E_def using idx by auto
  define tmp where "tmp = map (\<lambda>g. rem ! (g div 2)) S"
  have tmpE: "tmp = map (\<lambda>g. rem ! g) E" unfolding tmp_def E_def by (simp add: comp_def)
  have tmpL: "\<forall>g \<in> set tmp. g \<in> set L"
    unfolding tmp_def using idx sub by auto
  from gate_dict_entries_ok[OF tmpL] obtain ds where
    ds: "gate_dict_entries L tmp = Inr ds" and dsm: "map gate_of_entry ds = tmp" by blast
  define aod where "aod = map (mover rem) S"
  define tq where "tq = target_qubits_of rem S"
  have chk1: "\<not> list_ex (\<lambda>i. i div 2 \<ge> length rem) S"
  proof -
    have "\<forall>i \<in> set S. \<not> length rem \<le> i div 2" using idx by (simp add: not_le)
    then show ?thesis by (simp add: list_ex_iff)
  qed
  have chk2: "\<not> list_ex (\<lambda>i. i \<in> set aod \<and> length m \<le> the (tq i)) [0 ..< n_q]"
  proof -
    have "\<And>q. q \<in> set aod \<Longrightarrow> the (tq q) < length m"
    proof -
      fix q assume "q \<in> set aod"
      then have "q \<in> mover rem ` set S" unfolding aod_def by simp
      from target_qubits_of_mover[OF this] obtain i where
        i: "i \<in> set S" and t: "tq q = Some (partner rem i)" unfolding tq_def by blast
      from idx[OF i] have "rem ! (i div 2) \<in> set rem" by simp
      with inr have "fst (rem ! (i div 2)) < length m \<and> snd (rem ! (i div 2)) < length m"
        by blast
      with mover_partner_cases[of rem i] have "partner rem i < length m" by auto
      with t show "the (tq q) < length m" by simp
    qed
    then have "\<forall>i \<in> set [0 ..< n_q]. \<not> (i \<in> set aod \<and> length m \<le> the (tq i))"
      by (simp add: not_le)
    then show ?thesis by (simp only: list_ex_iff) blast
  qed
  define m' where "m' = move_qubits n_q aod tq m"
  define st' where "st' = \<lparr>rs_remain = remaining_gates S rem,
                         rs_mapping = m',
                         rs_layers = append_layer m' n_q aod (rs_layers st),
                         rs_gates_dict = rs_gates_dict st @ ds,
                         rs_layer_aod = rs_layer_aod st @ [aod],
                         rs_set_aod = remdups (rs_set_aod st @ aod),
                         rs_batch = rs_batch st + 1\<rparr>"
  have pass: "route_pass ext Maximalis_sorted w n_q L st = Inr st'"
    unfolding route_pass_def rem_def[symmetric] m_def[symmetric]
    by (simp add: mv solve_first_phase_def S chk1 Let_def tmp_def[symmetric] ds
          aod_def[symmetric] tq_def[symmetric] chk2 m'_def[symmetric] st'_def)
  have rem': "remaining_gates S rem = map (\<lambda>g. rem ! g) (filter (\<lambda>g. g \<notin> set E) [0 ..< length rem])"
    unfolding E_def by (rule remaining_gates_eq)
  have i1: "length (rs_mapping st') = length m0"
    unfolding st'_def m'_def using move_qubits_keeps[of n_q aod tq m] len by simp
  have i2: "distinct (rs_remain st')"
  proof -
    have "distinct (filter (\<lambda>g. g \<notin> set E) [0 ..< length rem])" by simp
    moreover have "set (filter (\<lambda>g. g \<notin> set E) [0 ..< length rem]) \<subseteq> {..<length rem}" by auto
    ultimately have "distinct (map (\<lambda>g. rem ! g) (filter (\<lambda>g. g \<notin> set E) [0 ..< length rem]))"
      by (rule distinct_map_nth[OF drem])
    then show ?thesis unfolding st'_def rem' by simp
  qed
  have sub': "set (remaining_gates S rem) \<subseteq> set rem" unfolding rem' by auto
  have i3: "set (rs_remain st') \<subseteq> set L" unfolding st'_def using sub' sub by auto
  have i4: "\<forall>g \<in> set (rs_remain st').
        rs_mapping st' ! fst g = m0 ! fst g \<and> rs_mapping st' ! snd g = m0 ! snd g"
  proof
    fix g assume "g \<in> set (rs_remain st')"
    then obtain k where k: "k < length rem" "k \<notin> set E" and g: "g = rem ! k"
      unfolding st'_def rem' by auto
    have gin: "g \<in> set rem" using k g by simp
    have notaod: "fst g \<notin> set aod \<and> snd g \<notin> set aod"
    proof -
      have "\<And>i. i \<in> set S \<Longrightarrow> mover rem i \<noteq> fst g \<and> mover rem i \<noteq> snd g"
      proof -
        fix i assume i: "i \<in> set S"
        let ?h = "rem ! (i div 2)"
        from i have hE: "i div 2 \<in> set E" unfolding E_def by auto
        with k have "i div 2 \<noteq> k" by auto
        with drem idx[OF i] k(1) g have "?h \<noteq> g" by (simp add: nth_eq_iff_index_eq)
        moreover have "?h \<in> set L" using idx[OF i] sub by auto
        moreover have "g \<in> set L" using gin sub by auto
        ultimately have "fst ?h \<noteq> fst g \<and> fst ?h \<noteq> snd g \<and> snd ?h \<noteq> fst g \<and> snd ?h \<noteq> snd g"
          using wfd by blast
        with mover_partner_cases[of rem i] show "mover rem i \<noteq> fst g \<and> mover rem i \<noteq> snd g"
          by auto
      qed
      then have nm: "\<forall>i \<in> set S. mover rem i \<noteq> fst g \<and> mover rem i \<noteq> snd g" by blast
      have "fst g \<notin> mover rem ` set S"
      proof
        assume "fst g \<in> mover rem ` set S"
        then obtain i where "i \<in> set S" "fst g = mover rem i" by (rule imageE)
        with nm show False by metis
      qed
      moreover have "snd g \<notin> mover rem ` set S"
      proof
        assume "snd g \<in> mover rem ` set S"
        then obtain i where "i \<in> set S" "snd g = mover rem i" by (rule imageE)
        with nm show False by metis
      qed
      ultimately show ?thesis unfolding aod_def set_map by simp
    qed
    with move_qubits_keeps[of n_q aod tq m "fst g"] move_qubits_keeps[of n_q aod tq m "snd g"]
    have "m' ! fst g = m ! fst g" "m' ! snd g = m ! snd g" unfolding m'_def by simp_all
    with same[OF gin] show "rs_mapping st' ! fst g = m0 ! fst g \<and> rs_mapping st' ! snd g = m0 ! snd g"
      unfolding st'_def by simp
  qed
  have part: "mset tmp + mset (remaining_gates S rem) = mset rem"
    unfolding tmpE rem' by (rule mset_selected_remaining[OF Ed Er])
  have i5: "mset (map gate_of_entry (rs_gates_dict st')) + mset (rs_remain st') = mset L"
  proof -
    have "mset (map gate_of_entry (rs_gates_dict st')) + mset (rs_remain st') =
          mset (map gate_of_entry (rs_gates_dict st)) + (mset tmp + mset (remaining_gates S rem))"
      unfolding st'_def using dsm by (simp add: ac_simps)
    also have "\<dots> = mset L" unfolding part by (rule ms)
    finally show ?thesis .
  qed
  have i6: "rs_layers st' \<noteq> []" "\<forall>l \<in> set (rs_layers st'). l_gates l = []"
    unfolding st'_def using append_layer_props[of m' n_q aod "rs_layers st"] lne lg by simp_all
  have dec: "length (rs_remain st') < length (rs_remain st)"
  proof -
    from S0 have "0 \<in> set E" unfolding E_def by force
    moreover have "0 \<in> set [0 ..< length rem]" using ne unfolding rem_def by simp
    ultimately have "length (filter (\<lambda>g. g \<notin> set E) [0 ..< length rem]) < length [0 ..< length rem]"
      by (intro length_filter_less[of 0]) simp_all
    then have "length (remaining_gates S rem) < length rem" unfolding rem' by simp
    then show ?thesis unfolding st'_def rem_def by simp
  qed
  have ll: "length (rs_layers st') = length (rs_layers st) + 1"
    unfolding st'_def using append_layer_props[of m' n_q aod "rs_layers st"] lne by simp
  have "route_inv m0 L st'" unfolding route_inv_def using i1 i2 i3 i4 i5 i6 by blast
  with pass dec ll show ?thesis by blast
qed

lemma route_loop_total:
  assumes wf: "layer_wf m0 L"
  shows "route_inv m0 L st \<Longrightarrow> length (rs_remain st) \<le> fuel \<Longrightarrow>
         \<exists>st'. route_loop fuel ext Maximalis_sorted w n_q L st = Some (Inr st') \<and>
               route_inv m0 L st' \<and> rs_remain st' = [] \<and>
               length (rs_layers st) \<le> length (rs_layers st') \<and>
               (rs_remain st \<noteq> [] \<longrightarrow> length (rs_layers st) < length (rs_layers st'))"
proof (induction fuel arbitrary: st)
  case 0
  then show ?case by simp
next
  case (Suc fuel)
  show ?case
  proof (cases "rs_remain st = []")
    case True
    with Suc.prems show ?thesis by simp
  next
    case False
    from route_pass_inv[OF wf Suc.prems(1) False, of ext w n_q] obtain st1 where
      p: "route_pass ext Maximalis_sorted w n_q L st = Inr st1" and i: "route_inv m0 L st1"
      and d: "length (rs_remain st1) < length (rs_remain st)"
      and l: "length (rs_layers st1) = length (rs_layers st) + 1" by blast
    from d Suc.prems(2) have "length (rs_remain st1) \<le> fuel" by simp
    from Suc.IH[OF i this] obtain st' where
      r: "route_loop fuel ext Maximalis_sorted w n_q L st1 = Some (Inr st')"
      and i': "route_inv m0 L st'" and e: "rs_remain st' = []"
      and l': "length (rs_layers st1) \<le> length (rs_layers st')" by blast
    have "route_loop (Suc fuel) ext Maximalis_sorted w n_q L st = Some (Inr st')"
      using False p r by simp
    with i' e l l' show ?thesis by auto
  qed
qed

lemma route_inv_initial:
  assumes wf: "layer_wf m0 L"
  shows "route_inv m0 L \<lparr>rs_remain = sort_gates_by_distance m0 L, rs_mapping = m0,
                         rs_layers = [mk_layer m0 n_q], rs_gates_dict = [],
                         rs_layer_aod = [], rs_set_aod = [], rs_batch = 0\<rparr>"
proof -
  from wf have "distinct L" unfolding layer_wf_def by blast
  then show ?thesis
    unfolding route_inv_def sort_gates_by_distance_def
    by (simp add: mk_layer_def)
qed

lemma fired_gates_append [simp]: "fired_gates (xs @ ys) = fired_gates xs @ fired_gates ys"
  by (simp add: fired_gates_def)

lemma gate_layers_append [simp]: "gate_layers (xs @ ys) = gate_layers xs + gate_layers ys"
  by (simp add: gate_layers_def)

lemma fired_gates_single [simp]: "fired_gates [l] = l_gates l"
  by (simp add: fired_gates_def)

lemma gate_layers_single [simp]: "gate_layers [l] = (if l_gates l = [] then 0 else 1)"
  by (simp add: gate_layers_def)


lemma split_last: "ls \<noteq> [] \<Longrightarrow> ls = butlast ls @ [last ls]"
  by simp






lemma reverse_phase_returns:
  "2 \<le> length ls \<Longrightarrow> \<exists>ls'. reverse_phase n_q last_layer ls = Inr ls'"
  by (simp add: reverse_phase_def Let_def)




lemma route_qubit_mis_unfold:
  assumes "n_q \<le> length m" "idx < length lg"
    "\<forall>g \<in> set (lg ! idx). fst g < length m \<and> snd g < length m"
  shows "route_qubit_mis fuel ext cd n_q idx lg m Maximalis_sorted r2i l2 w =
     (case route_loop fuel ext Maximalis_sorted w n_q (lg ! idx) (route_start m n_q (lg ! idx)) of
        None \<Rightarrow> None
      | Some (Inl e) \<Rightarrow> Some (Inl e)
      | Some (Inr st) \<Rightarrow>
         (let layers = attach_gates (rs_gates_dict st) (rs_layers st)
          in if r2i
             then (case reverse_phase n_q (mk_layer m n_q) layers of
                     Inl e \<Rightarrow> Some (Inl e)
                   | Inr layers' \<Rightarrow>
                       Some (Inr (\<lparr>rd_layers = clear_last_a layers', rd_n_q = n_q, rd_g_q = lg\<rparr>, m)))
             else if idx + 1 < length lg
             then (case replace_phase fuel ext cd n_q idx lg m Maximalis_sorted l2 w
                          (st\<lparr>rs_layers := layers\<rparr>) of
                     None \<Rightarrow> None
                   | Some (Inl e) \<Rightarrow> Some (Inl e)
                   | Some (Inr (layers', placed)) \<Rightarrow>
                       Some (Inr (\<lparr>rd_layers = clear_last_a layers', rd_n_q = n_q, rd_g_q = lg\<rparr>, placed)))
             else Some (Inr (\<lparr>rd_layers = clear_last_a layers, rd_n_q = n_q, rd_g_q = lg\<rparr>, m))))"
proof -
  have c: "\<not> list_ex (\<lambda>g. length m \<le> fst g \<or> length m \<le> snd g) (lg ! idx)"
    using assms(3) by (auto simp: list_ex_iff)
  show ?thesis
    unfolding route_qubit_mis_def route_start_def using assms(1,2) c
    by (simp add: Let_def)
qed

lemma r2i_mapping:
  assumes "route_qubit_mis fuel ext cd n_q idx lg m strategy True l2 w = Some (Inr (data, m'))"
  shows "m' = m"
  using assms unfolding route_qubit_mis_def Let_def
  by (simp split: if_splits option.splits sum.splits)


lemma r2i_total:
  assumes il: "idx < length lg" and nq: "n_q \<le> length m" and wf: "layer_wf m (lg ! idx)"
    and ne: "lg ! idx \<noteq> []" and fu: "length (lg ! idx) \<le> fuel"
  shows "\<exists>data. route_qubit_mis fuel ext cd n_q idx lg m Maximalis_sorted True l2 w
                  = Some (Inr (data, m))"
proof -
  let ?L = "lg ! idx"
  from wf have rng: "\<forall>g \<in> set ?L. fst g < length m \<and> snd g < length m"
    unfolding layer_wf_def by blast
  note unf = route_qubit_mis_unfold[OF nq il rng, of fuel ext cd True l2 w]
  have i0: "route_inv m ?L (route_start m n_q ?L)"
    unfolding route_start_def by (rule route_inv_initial[OF wf])
  have r0: "rs_remain (route_start m n_q ?L) \<noteq> []"
    "length (rs_remain (route_start m n_q ?L)) \<le> fuel"
    "length (rs_layers (route_start m n_q ?L)) = 1"
  proof -
    have "length (sort_gates_by_distance m ?L) = length ?L"
      by (simp add: sort_gates_by_distance_def)
    then show "rs_remain (route_start m n_q ?L) \<noteq> []"
      "length (rs_remain (route_start m n_q ?L)) \<le> fuel"
      using ne fu by (auto simp: route_start_def)
    show "length (rs_layers (route_start m n_q ?L)) = 1" by (simp add: route_start_def)
  qed
  from route_loop_total[OF wf i0 r0(2), of ext w n_q] r0(1,3) obtain st where
    loop: "route_loop fuel ext Maximalis_sorted w n_q ?L (route_start m n_q ?L) = Some (Inr st)"
    and l2: "2 \<le> length (rs_layers st)" by auto
  have "length (attach_gates (rs_gates_dict st) (rs_layers st)) = length (rs_layers st)"
    using l2 by (cases "rs_layers st" rule: rev_cases) (simp_all add: attach_gates_def)
  with l2 have "2 \<le> length (attach_gates (rs_gates_dict st) (rs_layers st))" by simp
  from reverse_phase_returns[OF this, of n_q "mk_layer m n_q"] obtain ls' where
    "reverse_phase n_q (mk_layer m n_q) (attach_gates (rs_gates_dict st) (rs_layers st)) = Inr ls'"
    by blast
  with loop show ?thesis unfolding unf by (simp add: Let_def)
qed

section \<open>Geometry sizing of the placers\<close>

lemma sqrt_search_le: "sqrt_search n b * sqrt_search n b \<le> n"
  by (induction b) auto

lemma sqrt_search_max: "k \<le> b \<Longrightarrow> k * k \<le> n \<Longrightarrow> k \<le> sqrt_search n b"
proof (induction b)
  case 0
  then show ?case by simp
next
  case (Suc b)
  show ?case
  proof (cases "Suc b * Suc b \<le> n")
    case True
    then show ?thesis using Suc.prems by simp
  next
    case False
    with Suc.prems have "k \<noteq> Suc b" by auto
    with Suc.prems have "k \<le> b" by simp
    with Suc False show ?thesis by simp
  qed
qed

lemma py_int_sqrt_bounds:
  "py_int_sqrt n * py_int_sqrt n \<le> n \<and> n < (py_int_sqrt n + 1) * (py_int_sqrt n + 1)"
proof -
  let ?r = "py_int_sqrt n"
  have a: "?r * ?r \<le> n" unfolding py_int_sqrt_def by (rule sqrt_search_le)
  have "\<not> (?r + 1) * (?r + 1) \<le> n"
  proof
    assume h: "(?r + 1) * (?r + 1) \<le> n"
    have "?r + 1 \<le> (?r + 1) * (?r + 1)" by simp
    with h have "?r + 1 \<le> n" by linarith
    from sqrt_search_max[OF this h] show False by (simp add: py_int_sqrt_def)
  qed
  with a show ?thesis by simp
qed

lemma py_int_sqrt_floor: "py_int_sqrt n = nat \<lfloor>sqrt (real n)\<rfloor>"
proof -
  let ?r = "py_int_sqrt n"
  from py_int_sqrt_bounds[of n] have lo: "?r * ?r \<le> n" and hi: "n < (?r + 1) * (?r + 1)" by simp_all
  have "(real ?r)\<^sup>2 \<le> real n" using lo
    by (metis of_nat_le_iff of_nat_mult power2_eq_square)
  then have l: "real ?r \<le> sqrt (real n)" by (rule real_le_rsqrt)
  have "real n < (real (?r + 1))\<^sup>2" using hi
    by (metis of_nat_less_iff of_nat_mult power2_eq_square)
  then have u: "sqrt (real n) < real (?r + 1)" by (intro real_less_lsqrt) simp_all
  have "\<lfloor>sqrt (real n)\<rfloor> = int ?r"
    by (rule floor_unique) (use l u in simp_all)
  then show ?thesis by simp
qed

lemma ceil_sqrt_5: "nat \<lceil>sqrt (real 5)\<rceil> = 3"
proof -
  have "(2::real)\<^sup>2 < real 5" by simp
  then have l: "2 < sqrt (real 5)" by (rule real_less_rsqrt)
  have "real 5 \<le> (3::real)\<^sup>2" by simp
  then have u: "sqrt (real 5) \<le> 3" by (intro real_le_lsqrt) simp_all
  have "\<lceil>sqrt (real 5)\<rceil> = 3" by (rule ceiling_unique) (use l u in simp_all)
  then show ?thesis by simp
qed

text \<open>
  Claim C6 (amended).  Both placers size the working grid with the square root rounded
  down: with \<open>L = \<lfloor>sqrt Nq\<rfloor> + 4\<close> the grid is \<open>(min Nx L, min Ny L)\<close>, except that the
  full chip \<open>(Nx, Ny)\<close> is used when \<open>min Nx L * min Ny L < Nq\<close>.
\<close>

theorem working_grid_floor_sqrt:
  "SAPlacer_chip_dim (Nx, Ny) Nq =
     (let L = nat \<lfloor>sqrt (real Nq)\<rfloor> + 4
      in if min Nx L * min Ny L < Nq then (Nx, Ny) else (min Nx L, min Ny L)) \<and>
   SAPlacerPartial_chip_dim (Nx, Ny) Nq = SAPlacer_chip_dim (Nx, Ny) Nq"
  by (simp add: SAPlacer_chip_dim_def SAPlacerPartial_chip_dim_def Let_def py_int_sqrt_floor)

text \<open>
  With 5 qubits on a 16 by 16 chip the source works on a 6 by 6 grid, while the rule with
  the root rounded up gives 7 by 7.
\<close>

theorem working_grid_ceil_counterexample:
  "SAPlacer_chip_dim (16, 16) 5 = (6, 6) \<and> SAPlacerPartial_chip_dim (16, 16) 5 = (6, 6) \<and>
   spec_working_grid (16, 16) 5 = (7, 7) \<and>
   SAPlacer_chip_dim (16, 16) 5 \<noteq> spec_working_grid (16, 16) 5"
proof -
  have r: "py_int_sqrt 5 = 2" by code_simp
  have a: "SAPlacer_chip_dim (16, 16) 5 = (6, 6)"
    by (simp add: SAPlacer_chip_dim_def Let_def r)
  have b: "SAPlacerPartial_chip_dim (16, 16) 5 = (6, 6)"
    by (simp add: SAPlacerPartial_chip_dim_def Let_def r)
  have c: "spec_working_grid (16, 16) 5 = (7, 7)"
    using ceil_sqrt_5 by (simp add: spec_working_grid_def spec_virtual_side_def Let_def)
  from a b c show ?thesis by simp
qed

section \<open>The scheduler and the colouring bound\<close>




lemma rx_fold_Inl: "fold (rx_place_edge ec) is (Inl e) = Inl e"
  by (induction "is") (simp_all add: rx_place_edge_def)









section \<open>The Rydberg instructions of the emitted program\<close>









lemma kept_rydberg:
  "emit_full (remove_trivial_insts (ComboInst [builder_rydberg layers s])) =
     [Rydberg_code s (l_gates (layers ! s))]"
  by (simp add: builder_rydberg_def)

















lemma r2i_route_layers_mapping:
  "route_layers fuel ext cg n_x n_y n_q lg strategy True l2 w ks (prog, m)
     = Some (Inr (prog', m')) \<Longrightarrow> m' = m"
proof (induction ks arbitrary: prog)
  case Nil
  then show ?case by simp
next
  case (Cons k ks)
  from Cons.prems obtain data m1 program where
    q: "route_qubit_mis fuel ext (n_x, n_y) n_q k lg m strategy True l2 w = Some (Inr (data, m1))"
    and r: "route_layers fuel ext cg n_x n_y n_q lg strategy True l2 w ks
              (prog @ (if k = 0 then emit_full program else drop 2 (emit_full program)), m1)
            = Some (Inr (prog', m'))"
    by (auto simp: Let_def split: option.splits sum.splits)
  from r2i_mapping[OF q] have "m1 = m" .
  with Cons.IH[of "prog @ (if k = 0 then emit_full program else drop 2 (emit_full program))"] r
  show ?case by simp
qed

lemma r2i_layers_wf_run:
  "\<forall>k \<in> set ks. layer_wf m (lg ! k) \<Longrightarrow>
   layers_wf_run fuel ext n_x n_y n_q lg strategy True l2 w ks m"
proof (induction ks)
  case Nil
  then show ?case by simp
next
  case (Cons k ks)
  then have ih: "layers_wf_run fuel ext n_x n_y n_q lg strategy True l2 w ks m" by simp
  have "\<And>data m1. route_qubit_mis fuel ext (n_x, n_y) n_q k lg m strategy True l2 w
          = Some (Inr (data, m1)) \<Longrightarrow> m1 = m" by (rule r2i_mapping)
  with ih Cons.prems show ?case by (auto split: option.splits sum.splits)
qed



text \<open>
  Claim C5.  With \<open>reverse_to_initial\<close>, the mapping that \<open>route_qubit_mis\<close> returns is
  the mapping it was given, for every strategy; for the sorted strategy and a non-empty
  well-formed layer it does return once the pass count covers the gates of the layer; and
  so the mapping that \<open>route_qubit\<close> hands from layer to layer never changes.
\<close>

theorem r2i_preserves_mapping:
  "(route_qubit_mis fuel ext chip_dim n_q index_list_gate list_gates qubit_mapping
      routing_strategy True l2 use_window = Some (Inr (data, final_mapping))
    \<longrightarrow> final_mapping = qubit_mapping) \<and>
   (index_list_gate < length list_gates \<and> n_q \<le> length qubit_mapping \<and>
    layer_wf qubit_mapping (list_gates ! index_list_gate) \<and>
    list_gates ! index_list_gate \<noteq> [] \<and> length (list_gates ! index_list_gate) \<le> fuel
    \<longrightarrow> (\<exists>data'. route_qubit_mis fuel ext chip_dim n_q index_list_gate list_gates qubit_mapping
                   Maximalis_sorted True l2 use_window = Some (Inr (data', qubit_mapping)))) \<and>
   (route_layers fuel ext cg n_x n_y n_q list_gates routing_strategy True l2 use_window
      indices (program_list, qubit_mapping) = Some (Inr (program_list', last_mapping))
    \<longrightarrow> last_mapping = qubit_mapping)"
proof (intro conjI impI)
  assume "route_qubit_mis fuel ext chip_dim n_q index_list_gate list_gates qubit_mapping
      routing_strategy True l2 use_window = Some (Inr (data, final_mapping))"
  then show "final_mapping = qubit_mapping" by (rule r2i_mapping)
next
  assume "index_list_gate < length list_gates \<and> n_q \<le> length qubit_mapping \<and>
    layer_wf qubit_mapping (list_gates ! index_list_gate) \<and>
    list_gates ! index_list_gate \<noteq> [] \<and> length (list_gates ! index_list_gate) \<le> fuel"
  then show "\<exists>data'. route_qubit_mis fuel ext chip_dim n_q index_list_gate list_gates qubit_mapping
                   Maximalis_sorted True l2 use_window = Some (Inr (data', qubit_mapping))"
    using r2i_total by blast
next
  assume "route_layers fuel ext cg n_x n_y n_q list_gates routing_strategy True l2 use_window
      indices (program_list, qubit_mapping) = Some (Inr (program_list', last_mapping))"
  then show "last_mapping = qubit_mapping" by (rule r2i_route_layers_mapping)
qed

theorem r2i_preserves_mapping_witness:
  "(0 < length ([[(0, 1)], [(1, 2)]] :: gate list list) \<and>
    3 \<le> length ([(0, 0), (1, 0), (1, 1)] :: site list) \<and>
    layer_wf [(0, 0), (1, 0), (1, 1)] ([[(0, 1)], [(1, 2)]] ! 0) \<and>
    ([[(0, 1)], [(1, 2)]] :: gate list list) ! 0 \<noteq> [] \<and>
    length (([[(0, 1)], [(1, 2)]] :: gate list list) ! 0) \<le> 3) \<and>
   (\<exists>data'. route_qubit_mis 3 example_externals (2, 2) 3 0 [[(0, 1)], [(1, 2)]]
               [(0, 0), (1, 0), (1, 1)] Maximalis_sorted True False False
             = Some (Inr (data', [(0, 0), (1, 0), (1, 1)]))) \<and>
   route_layers 3 example_externals example_codegen 2 2 3 [[(0, 1)], [(1, 2)]] Maximalis_sorted
     True False False [0, 1] ([], [(0, 0), (1, 0), (1, 1)])
   = Some (Inr ([Init_code, Rydberg_code 0 [], Motion_code 1,
                 Rydberg_code 1 [\<lparr>ge_id = 0, ge_q0 = 0, ge_q1 = 1\<rparr>], Motion_code 2,
                 Motion_code 1, Rydberg_code 1 [\<lparr>ge_id = 0, ge_q0 = 1, ge_q1 = 2\<rparr>],
                 Motion_code 2], [(0, 0), (1, 0), (1, 1)]))"
proof -
  let ?lg = "[[(0, 1)], [(1, 2)]] :: gate list list"
  let ?m = "[(0, 0), (1, 0), (1, 1)] :: site list"
  let ?p = "[Init_code, Rydberg_code 0 [], Motion_code 1,
                 Rydberg_code 1 [\<lparr>ge_id = 0, ge_q0 = 0, ge_q1 = 1\<rparr>], Motion_code 2,
                 Motion_code 1, Rydberg_code 1 [\<lparr>ge_id = 0, ge_q0 = 1, ge_q1 = 2\<rparr>],
                 Motion_code 2] :: nat code list"
  have wf: "layer_wf ?m (?lg ! 0)" by code_simp
  have h: "0 < length ?lg \<and> 3 \<le> length ?m \<and> layer_wf ?m (?lg ! 0) \<and>
           ?lg ! 0 \<noteq> [] \<and> length (?lg ! 0) \<le> 3"
    using wf by simp
  have rl: "route_layers 3 example_externals example_codegen 2 2 3 ?lg Maximalis_sorted
     True False False [0, 1] ([], ?m) = Some (Inr (?p, ?m))"
    by code_simp
  note t = r2i_preserves_mapping[of 3 example_externals "(2, 2)" 3 0 ?lg ?m Maximalis_sorted
              False False _ _ example_codegen 2 2 "[0, 1]" "[]" ?p ?m]
  from t h have ex: "\<exists>data'. route_qubit_mis 3 example_externals (2, 2) 3 0 ?lg ?m
             Maximalis_sorted True False False = Some (Inr (data', ?m))" by blast
  from h ex rl show ?thesis by blast
qed

end
